theory Spec2Isabelle
  imports Main "HOL-Library.Word" "HOL-Library.Signed_Division"
begin

unbundle bit_operations_syntax

section \<open>Values of the C program\<close>

text \<open>
  The driver is one C file, \<^verbatim>\<open>sdl2.c\<close>. A C \<^verbatim>\<open>int\<close> and an \<^verbatim>\<open>unsigned\<close> are 32-bit
  words: \<open>sint\<close> reads the first, \<open>unat\<close> the second; the word operations \<open>+\<close> and \<open>*\<close>
  wrap around as the compiled code does. For \<^verbatim>\<open>unsigned\<close> that is what C defines; for
  \<^verbatim>\<open>int\<close> C leaves an overflow undefined, and a theorem that reads a product of two
  \<^verbatim>\<open>int\<close> as an integer says that it fits. \<^verbatim>\<open>mp_int_t\<close> is the 64-bit integer of the
  Unix port.
\<close>

type_synonym c_int = "32 word"
type_synonym mp_int_t = "64 word"

text \<open>
  A MicroPython object, as far as the driver builds or receives one. \<open>MP_OBJ_NULL\<close> is
  the null object pointer, which is not a Python value. \<open>mp_buffer b\<close> is an object with
  the buffer protocol (bytes, bytearray); \<open>b = None\<close> when its data pointer is \<^verbatim>\<open>NULL\<close>.
\<close>

datatype mp_obj_t =
    MP_OBJ_NULL
  | mp_const_none
  | mp_int int
  | mp_str string
  | mp_tuple "mp_obj_t list"
  | mp_buffer "8 word list option"

definition mp_obj_new_int :: "int \<Rightarrow> mp_obj_t" where
  "mp_obj_new_int v = mp_int v"

definition mp_obj_new_str :: "string \<Rightarrow> mp_obj_t" where
  "mp_obj_new_str s = mp_str s"

text \<open>\<^verbatim>\<open>mp_obj_new_tuple(n, items)\<close> copies the first \<open>n\<close> entries of the C array.\<close>

definition mp_obj_new_tuple :: "nat \<Rightarrow> mp_obj_t list \<Rightarrow> mp_obj_t" where
  "mp_obj_new_tuple n items = mp_tuple (take n items)"

text \<open>
  How a call ends other than by returning: the two exceptions the driver raises
  (\<^verbatim>\<open>mp_raise_msg\<close> does not return), and \<open>Undefined\<close> where the C code has no defined
  behaviour (a read outside an array, a read of an uninitialised variable, a division
  the machine traps on).
\<close>

datatype error =
    ValueError string
  | RuntimeError string
  | Undefined string

text \<open>
  \<^verbatim>\<open>struct _sdl2_obj_t\<close>. The fields \<^verbatim>\<open>x\<close> and \<^verbatim>\<open>y\<close> are \<open>pos_x\<close> and \<open>pos_y\<close> here; the two
  handles are addresses, 0 for \<^verbatim>\<open>NULL\<close>.
\<close>

record sdl2_obj_t =
  pos_x :: c_int
  pos_y :: c_int
  width :: c_int
  height :: c_int
  title :: string
  window_flags :: c_int
  render_flags :: c_int
  x_scale :: c_int
  y_scale :: c_int
  win :: int
  renderer :: int

section \<open>The SDL2 library\<close>

text \<open>
  \<^verbatim>\<open>union SDL_Event\<close>, flattened: the fields of the members the driver reads, and the
  four further fields of the wheel member that it does not read. The two
  \<^verbatim>\<open>float\<close> fields are kept as their 32 bits.
\<close>

record SDL_Event =
  ev_type :: "32 word"
  key_keysym_sym :: "32 word"
  key_keysym_mod :: "16 word"
  motion_x :: c_int
  motion_y :: c_int
  motion_xrel :: c_int
  motion_yrel :: c_int
  motion_state :: "32 word"
  button_x :: c_int
  button_y :: c_int
  button_button :: "8 word"
  wheel_x :: c_int
  wheel_y :: c_int
  wheel_direction :: "32 word"
  wheel_preciseX :: "32 word"
  wheel_preciseY :: "32 word"
  wheel_mouseX :: c_int
  wheel_mouseY :: c_int

text \<open>The event kinds, with the values of \<^verbatim>\<open>SDL_events.h\<close>.\<close>

definition SDL_QUIT :: "32 word" where "SDL_QUIT = 0x100"
definition SDL_KEYDOWN :: "32 word" where "SDL_KEYDOWN = 0x300"
definition SDL_KEYUP :: "32 word" where "SDL_KEYUP = 0x301"
definition SDL_MOUSEMOTION :: "32 word" where "SDL_MOUSEMOTION = 0x400"
definition SDL_MOUSEBUTTONDOWN :: "32 word" where "SDL_MOUSEBUTTONDOWN = 0x401"
definition SDL_MOUSEBUTTONUP :: "32 word" where "SDL_MOUSEBUTTONUP = 0x402"
definition SDL_MOUSEWHEEL :: "32 word" where "SDL_MOUSEWHEEL = 0x403"

text \<open>
  The requests the driver sends to create and draw on the surface, with their
  arguments in the order of the C calls.
\<close>

datatype sdl_request =
    SDL_Init
  | SDL_CreateWindow string c_int c_int c_int c_int c_int
  | SDL_CreateRenderer int c_int c_int
  | SDL_SetRenderDrawColor int "8 word" "8 word" "8 word" "8 word"
  | SDL_RenderDrawPoint int c_int c_int
  | SDL_RenderFillRect int c_int c_int c_int c_int
  | SDL_RenderPresent int

text \<open>
  Modelled from the spec: the Surface Manager is the SDL2 library, which is not part of
  this repository. Its state is the list of requests it has received (oldest first),
  the host event queue, and whether the process-wide subsystem is up. What a request
  returns is the backend's choice: \<open>be rs r\<close> is the value returned to request \<open>r\<close> after
  the requests \<open>rs\<close> (0 is success for a call returning a status, and \<^verbatim>\<open>NULL\<close> for a call
  returning a handle).

  The state of the program is the driver object (what \<^verbatim>\<open>self\<close> points to) and the state
  of the library.
\<close>

record sdl2_state =
  obj :: sdl2_obj_t
  requests :: "sdl_request list"
  event_queue :: "SDL_Event list"
  subsystem_up :: bool

type_synonym sdl_backend = "sdl_request list \<Rightarrow> sdl_request \<Rightarrow> int"

definition issue :: "sdl_backend \<Rightarrow> sdl_request \<Rightarrow> sdl2_state \<Rightarrow> int \<times> sdl2_state" where
  "issue be r st = (be (requests st) r, st\<lparr>requests := requests st @ [r]\<rparr>)"

text \<open>
  Modelled from the spec: \<^verbatim>\<open>pollNextEvent() -> RawEvent | none\<close> takes the oldest event
  off the host queue and never waits.
\<close>

definition SDL_PollEvent :: "sdl2_state \<Rightarrow> SDL_Event option \<times> sdl2_state" where
  "SDL_PollEvent st =
     (case event_queue st of
        [] \<Rightarrow> (None, st)
      | e # es \<Rightarrow> (Some e, st\<lparr>event_queue := es\<rparr>))"

text \<open>
  Modelled from the spec: \<^verbatim>\<open>close()\<close> of the Surface Manager (\<^verbatim>\<open>SDL_Quit\<close>, not part of
  this repository) releases the process-wide subsystem; with nothing open it changes
  nothing.
\<close>

definition SDL_Quit :: "sdl2_state \<Rightarrow> sdl2_state" where
  "SDL_Quit st = st\<lparr>subsystem_up := False\<rparr>"

section \<open>Construction\<close>

text \<open>
  The array \<^verbatim>\<open>args\<close> that \<^verbatim>\<open>mp_arg_parse_all_kw_array\<close> fills (argument parsing is
  MicroPython's): one \<^verbatim>\<open>u_int\<close> per integer argument, and the title as the C string that
  \<^verbatim>\<open>mp_obj_str_get_str\<close> returns.
\<close>

record mp_arg_vals =
  ARG_width :: mp_int_t
  ARG_height :: mp_int_t
  ARG_x :: mp_int_t
  ARG_y :: mp_int_t
  ARG_x_scale :: mp_int_t
  ARG_y_scale :: mp_int_t
  ARG_title :: string
  ARG_window_flags :: mp_int_t
  ARG_render_flags :: mp_int_t

text \<open>
  \<^verbatim>\<open>sdl2_make_new\<close>: the assignments to the fields of the new object (an \<^verbatim>\<open>mp_int_t\<close>
  stored in an \<^verbatim>\<open>int\<close> keeps its low 32 bits), then \<^verbatim>\<open>SDL_Init\<close>, \<^verbatim>\<open>SDL_CreateWindow\<close>
  and \<^verbatim>\<open>SDL_CreateRenderer\<close>, each followed by its check. The new object is \<open>obj\<close> of
  the state from its allocation on.
\<close>

definition sdl2_make_new ::
  "sdl_backend \<Rightarrow> mp_arg_vals \<Rightarrow> sdl2_state \<Rightarrow> (error + sdl2_obj_t) \<times> sdl2_state" where
  "sdl2_make_new be args st =
     (let st0 = st\<lparr>obj := \<lparr> pos_x = ucast (ARG_x args), pos_y = ucast (ARG_y args),
                   width = ucast (ARG_width args), height = ucast (ARG_height args),
                   title = ARG_title args,
                   window_flags = ucast (ARG_window_flags args),
                   render_flags = ucast (ARG_render_flags args),
                   x_scale = ucast (ARG_x_scale args), y_scale = ucast (ARG_y_scale args),
                   win = 0, renderer = 0 \<rparr>\<rparr>;
          (rc, st1) = issue be SDL_Init st0
      in if rc \<noteq> 0 then (Inl (RuntimeError ''SDL_Init error''), st1)
         else
           (let st2 = st1\<lparr>subsystem_up := True\<rparr>;
                (w, st3) = issue be (SDL_CreateWindow (title (obj st2)) (pos_x (obj st2))
                                       (pos_y (obj st2))
                                       (width (obj st2) * x_scale (obj st2))
                                       (height (obj st2) * y_scale (obj st2))
                                       (window_flags (obj st2))) st2;
                st4 = st3\<lparr>obj := (obj st3)\<lparr>win := w\<rparr>\<rparr>
            in if win (obj st4) = 0 then (Inl (RuntimeError ''SDL_CreateWindow error''), st4)
               else
                 (let (r, st5) = issue be (SDL_CreateRenderer (win (obj st4)) (- 1)
                                             (render_flags (obj st4))) st4;
                      st6 = st5\<lparr>obj := (obj st5)\<lparr>renderer := r\<rparr>\<rparr>
                  in if renderer (obj st6) = 0
                     then (Inl (RuntimeError ''SDL_CreateRenderer error''), st6)
                     else (Inr (obj st6), st6))))"

section \<open>show\<close>

text \<open>
  Lines 183 to 185: the three channels of a 16-bit colour. \<^verbatim>\<open>color\<close> is promoted to
  \<^verbatim>\<open>int\<close>; all the values are small and not negative, so the division of 32-bit words
  is the C one.
\<close>

definition pixel_r :: "16 word \<Rightarrow> 32 word" where
  "pixel_r color = drop_bit 11 (ucast color :: 32 word) * 255 div 31"

definition pixel_g :: "16 word \<Rightarrow> 32 word" where
  "pixel_g color = (drop_bit 5 (ucast color :: 32 word) AND 0x3F) * 255 div 63"

definition pixel_b :: "16 word \<Rightarrow> 32 word" where
  "pixel_b color = ((ucast color :: 32 word) AND 0x1F) * 255 div 31"

text \<open>
  \<^verbatim>\<open>buffer[i]\<close> with \<^verbatim>\<open>uint16_t *buffer\<close> over the bytes of the buffer, on a little-endian
  host: bytes \<open>2 i\<close> and \<open>2 i + 1\<close>. \<open>None\<close> when the read is outside the buffer.
\<close>

definition read_u16 :: "8 word list \<Rightarrow> c_int \<Rightarrow> 16 word option" where
  "read_u16 bytes i =
     (if 0 \<le> sint i \<and> 2 * nat (sint i) + 1 < length bytes
      then Some (ucast (bytes ! (2 * nat (sint i)))
                 OR push_bit 8 (ucast (bytes ! (2 * nat (sint i) + 1))))
      else None)"

text \<open>
  The body of the inner loop (lines 182 to 204), for the pixel at column \<open>xx\<close>, row \<open>yy\<close>.
  The three \<^verbatim>\<open>unsigned\<close> channels are passed as \<^verbatim>\<open>Uint8\<close>.
\<close>

definition show_pixel ::
  "sdl_backend \<Rightarrow> 8 word list \<Rightarrow> c_int \<Rightarrow> c_int \<Rightarrow> c_int \<Rightarrow> sdl2_state
     \<Rightarrow> (error + unit) \<times> sdl2_state" where
  "show_pixel be bytes xx yy i st =
     (case read_u16 bytes i of
        None \<Rightarrow> (Inl (Undefined ''read outside the buffer''), st)
      | Some color \<Rightarrow>
          (let (rc, st1) = issue be (SDL_SetRenderDrawColor (renderer (obj st))
                                       (ucast (pixel_r color)) (ucast (pixel_g color))
                                       (ucast (pixel_b color)) 255) st
           in if rc \<noteq> 0 then (Inl (RuntimeError ''SDL_SetRenderDrawColor error''), st1)
              else if x_scale (obj st1) = 1 \<and> y_scale (obj st1) = 1 then
                (let (rc, st2) = issue be (SDL_RenderDrawPoint (renderer (obj st1)) xx yy) st1
                 in if rc \<noteq> 0 then (Inl (RuntimeError ''SDL_RenderDrawPoint error''), st2)
                    else (Inr (), st2))
              else
                (let (rc, st2) = issue be (SDL_RenderFillRect (renderer (obj st1))
                                             (xx * x_scale (obj st1)) (yy * y_scale (obj st1))
                                             (x_scale (obj st1)) (y_scale (obj st1))) st1
                 in if rc \<noteq> 0 then (Inl (RuntimeError ''SDL_RenderFillRect error''), st2)
                    else (Inr (), st2))))"

text \<open>
  The inner loop \<^verbatim>\<open>for (int x = 0; x < self->width; x++)\<close> from \<open>xx\<close> on; it returns the
  buffer index \<^verbatim>\<open>i\<close> it has reached.
\<close>

function show_row ::
  "sdl_backend \<Rightarrow> 8 word list \<Rightarrow> c_int \<Rightarrow> c_int \<Rightarrow> c_int \<Rightarrow> sdl2_state
     \<Rightarrow> (error + c_int) \<times> sdl2_state" where
  "show_row be bytes yy xx i st =
     (if xx <s width (obj st) then
        (let res = show_pixel be bytes xx yy i st
         in (case fst res of
               Inl e \<Rightarrow> (Inl e, snd res)
             | Inr u \<Rightarrow> show_row be bytes yy (xx + 1) (i + 1) (snd res)))
      else (Inr i, st))"
  by pat_completeness auto
termination
proof (relation "measure (\<lambda>(be, bytes, yy, xx, i, st). nat (sint (width (obj st)) - sint xx))")
  show "wf (measure (\<lambda>(be, bytes, yy, xx, i, st). nat (sint (width (obj st)) - sint xx)))"
    by simp
next
  fix be :: sdl_backend and bytes :: "8 word list"
    and yy xx i :: c_int and st :: sdl2_state and res u
  assume lt: "xx <s width (obj st)" and res: "res = show_pixel be bytes xx yy i st"
  have same: "obj (snd res) = obj st"
    unfolding res show_pixel_def issue_def
    by (simp add: Let_def split: option.split)
  have up: "sint (width (obj st)) < 2 ^ 31"
    using sint_lt [of "width (obj st)"] by simp
  have lo: "- (2 ^ 31) \<le> sint xx"
    using sint_ge [of xx] by simp
  have "sint (xx + 1) = signed_take_bit 31 (sint xx + 1)"
    by (simp add: sint_word_ariths)
  also have "\<dots> = sint xx + 1"
    using lt up lo by (intro signed_take_bit_int_eq_self) (simp_all add: word_sless_alt)
  finally have "sint (xx + 1) = sint xx + 1" .
  then show "((be, bytes, yy, xx + 1, i + 1, snd res), (be, bytes, yy, xx, i, st))
      \<in> measure (\<lambda>(be, bytes, yy, xx, i, st). nat (sint (width (obj st)) - sint xx))"
    using lt same by (simp add: word_sless_alt)
qed

text \<open>The outer loop \<^verbatim>\<open>for (int y = 0; y < self->height; y++)\<close> from \<open>yy\<close> on.\<close>

function show_rows ::
  "sdl_backend \<Rightarrow> 8 word list \<Rightarrow> c_int \<Rightarrow> c_int \<Rightarrow> sdl2_state
     \<Rightarrow> (error + c_int) \<times> sdl2_state" where
  "show_rows be bytes yy i st =
     (if yy <s height (obj st) then
        (let res = show_row be bytes yy 0 i st
         in (case fst res of
               Inl e \<Rightarrow> (Inl e, snd res)
             | Inr i' \<Rightarrow> show_rows be bytes (yy + 1) i' (snd res)))
      else (Inr i, st))"
  by pat_completeness auto
termination
proof (relation "measure (\<lambda>(be, bytes, yy, i, st). nat (sint (height (obj st)) - sint yy))")
  show "wf (measure (\<lambda>(be, bytes, yy, i, st). nat (sint (height (obj st)) - sint yy)))"
    by simp
next
  fix be :: sdl_backend and bytes :: "8 word list"
    and yy i i' :: c_int and st :: sdl2_state and res
  assume lt: "yy <s height (obj st)" and res: "res = show_row be bytes yy 0 i st"
  have pixel: "obj (snd (show_pixel b bs x y j s)) = obj s" for b bs x y j s
    unfolding show_pixel_def issue_def
    by (simp add: Let_def split: option.split)
  have row: "obj (snd (show_row b bs y x j s)) = obj s" for b bs y x j s
  proof (induction b bs y x j s rule: show_row.induct)
    case (1 b bs y x j s)
    show ?case
    proof (cases "x <s width (obj s)")
      case False
      then show ?thesis by (subst show_row.simps) simp
    next
      case True
      show ?thesis
      proof (cases "fst (show_pixel b bs x y j s)")
        case (Inl e)
        with True show ?thesis
          by (subst show_row.simps) (simp add: Let_def pixel)
      next
        case (Inr u)
        with True "1.IH" [OF True refl Inr] show ?thesis
          by (subst show_row.simps) (simp add: Let_def pixel)
      qed
    qed
  qed
  have same: "obj (snd res) = obj st"
    unfolding res by (rule row)
  have up: "sint (height (obj st)) < 2 ^ 31"
    using sint_lt [of "height (obj st)"] by simp
  have lo: "- (2 ^ 31) \<le> sint yy"
    using sint_ge [of yy] by simp
  have "sint (yy + 1) = signed_take_bit 31 (sint yy + 1)"
    by (simp add: sint_word_ariths)
  also have "\<dots> = sint yy + 1"
    using lt up lo by (intro signed_take_bit_int_eq_self) (simp_all add: word_sless_alt)
  finally have "sint (yy + 1) = sint yy + 1" .
  then show "((be, bytes, yy + 1, i', snd res), (be, bytes, yy, i, st))
      \<in> measure (\<lambda>(be, bytes, yy, i, st). nat (sint (height (obj st)) - sint yy))"
    using lt same by (simp add: word_sless_alt)
qed

text \<open>
  \<^verbatim>\<open>mp_get_buffer(obj, &bufinfo, MP_BUFFER_READ)\<close> fills \<^verbatim>\<open>bufinfo\<close> when the object has
  the buffer protocol and leaves it as it was otherwise; the driver does not look at
  what it returns. \<open>None\<close>: \<^verbatim>\<open>bufinfo\<close> is still uninitialised.
\<close>

fun mp_get_buffer :: "mp_obj_t \<Rightarrow> 8 word list option option" where
  "mp_get_buffer (mp_buffer b) = Some b"
| "mp_get_buffer _ = None"

text \<open>
  \<^verbatim>\<open>sdl2_show(n_args, args)\<close>, registered for one or two arguments: \<^verbatim>\<open>args[0]\<close> points
  to \<open>obj\<close> of the state and \<open>rest\<close> are the arguments after it, so \<^verbatim>\<open>args[1]\<close> is the head
  of \<open>rest\<close> and is outside the array when \<open>rest\<close> is empty. The size test compares the
  \<^verbatim>\<open>size_t\<close> length with the \<^verbatim>\<open>unsigned\<close> product
  \<^verbatim>\<open>(unsigned) self->width * self->height * 2\<close>, which wraps at 32 bits.
  \<^verbatim>\<open>SDL_RenderPresent\<close> returns nothing.
\<close>

definition sdl2_show ::
  "sdl_backend \<Rightarrow> mp_obj_t list \<Rightarrow> sdl2_state \<Rightarrow> (error + mp_obj_t) \<times> sdl2_state" where
  "sdl2_show be rest st =
     (case rest of
        [] \<Rightarrow> (Inl (Undefined ''args[1] is outside the argument array''), st)
      | a # _ \<Rightarrow>
          (case mp_get_buffer a of
             None \<Rightarrow> (Inl (Undefined ''bufinfo is uninitialised''), st)
           | Some None \<Rightarrow> (Inl (ValueError ''no buffer''), st)
           | Some (Some bytes) \<Rightarrow>
               (if length bytes \<noteq> unat (width (obj st) * height (obj st) * 2)
                then (Inl (ValueError ''buffer size mismatch''), st)
                else
                  (let res = show_rows be bytes 0 0 st
                   in (case fst res of
                         Inl e \<Rightarrow> (Inl e, snd res)
                       | Inr i \<Rightarrow>
                           (Inr mp_const_none,
                            snd (issue be (SDL_RenderPresent (renderer (obj (snd res))))
                                   (snd res))))))))"

section \<open>poll_event\<close>

text \<open>
  The value of the C expression \<^verbatim>\<open>a / b\<close> on two \<^verbatim>\<open>int\<close>: the quotient truncated towards
  zero. \<open>None\<close> where C leaves it undefined (and the machine traps): \<open>b = 0\<close>, and
  \<^verbatim>\<open>INT_MIN / -1\<close>.
\<close>

definition c_div :: "c_int \<Rightarrow> c_int \<Rightarrow> int option" where
  "c_div a b =
     (if sint b = 0 \<or> (sint a = - (2 ^ 31) \<and> sint b = - 1) then None
      else Some (sint a sdiv sint b))"

text \<open>
  The \<^verbatim>\<open>switch\<close> of \<^verbatim>\<open>sdl2_poll_event\<close> (lines 237 to 348) on one event. \<^verbatim>\<open>SDL_GetKeyName\<close>
  is the library's function from key codes to names, here the parameter \<open>keyname\<close>.
  The array \<^verbatim>\<open>mouse_wheel[8]\<close> has four initialisers, so C fills its other four entries
  with zero, the null object pointer.
\<close>

definition event_tuple :: "(32 word \<Rightarrow> string) \<Rightarrow> sdl2_obj_t \<Rightarrow> SDL_Event \<Rightarrow> error + mp_obj_t" where
  "event_tuple keyname self event =
     (if ev_type event = SDL_KEYDOWN \<or> ev_type event = SDL_KEYUP then
        Inr (mp_obj_new_tuple 3
              [mp_obj_new_int (uint (ev_type event)),
               mp_obj_new_str (keyname (key_keysym_sym event)),
               mp_obj_new_int (uint (key_keysym_mod event))])
      else if ev_type event = SDL_MOUSEMOTION then
        (case (c_div (motion_x event) (x_scale self), c_div (motion_y event) (y_scale self),
               c_div (motion_xrel event) (x_scale self),
               c_div (motion_yrel event) (y_scale self)) of
           (Some px, Some py, Some rx, Some ry) \<Rightarrow>
             Inr (mp_obj_new_tuple 6
                   [mp_obj_new_int (uint (ev_type event)),
                    mp_obj_new_int px, mp_obj_new_int py,
                    mp_obj_new_int rx, mp_obj_new_int ry,
                    mp_obj_new_int (uint (motion_state event))])
         | _ \<Rightarrow> Inl (Undefined ''integer division''))
      else if ev_type event = SDL_MOUSEBUTTONDOWN \<or> ev_type event = SDL_MOUSEBUTTONUP then
        (case (c_div (button_x event) (x_scale self), c_div (button_y event) (y_scale self)) of
           (Some px, Some py) \<Rightarrow>
             Inr (mp_obj_new_tuple 4
                   [mp_obj_new_int (uint (ev_type event)),
                    mp_obj_new_int px, mp_obj_new_int py,
                    mp_obj_new_int (uint (button_button event))])
         | _ \<Rightarrow> Inl (Undefined ''integer division''))
      else if ev_type event = SDL_MOUSEWHEEL then
        (case (c_div (wheel_x event) (x_scale self), c_div (wheel_y event) (x_scale self)) of
           (Some sx, Some sy) \<Rightarrow>
             Inr (mp_obj_new_tuple 8
                   [mp_obj_new_int (uint (ev_type event)),
                    mp_obj_new_int sx, mp_obj_new_int sy,
                    mp_obj_new_int (uint (wheel_direction event)),
                    MP_OBJ_NULL, MP_OBJ_NULL, MP_OBJ_NULL, MP_OBJ_NULL])
         | _ \<Rightarrow> Inl (Undefined ''integer division''))
      else
        Inr (mp_obj_new_tuple 1 [mp_obj_new_int (uint (ev_type event))]))"

text \<open>\<^verbatim>\<open>sdl2_poll_event\<close>: one \<^verbatim>\<open>SDL_PollEvent\<close>, then the switch, or \<^verbatim>\<open>None\<close>.\<close>

definition sdl2_poll_event ::
  "(32 word \<Rightarrow> string) \<Rightarrow> sdl2_state \<Rightarrow> (error + mp_obj_t) \<times> sdl2_state" where
  "sdl2_poll_event keyname st =
     (case SDL_PollEvent st of
        (Some event, st1) \<Rightarrow> (event_tuple keyname (obj st1) event, st1)
      | (None, st1) \<Rightarrow> (Inr mp_const_none, st1))"

text \<open>A caller that polls \<open>n\<close> times in a row, and what each call gave it.\<close>

fun poll_times ::
  "(32 word \<Rightarrow> string) \<Rightarrow> nat \<Rightarrow> sdl2_state \<Rightarrow> (error + mp_obj_t) list \<times> sdl2_state" where
  "poll_times keyname 0 st = ([], st)"
| "poll_times keyname (Suc n) st =
     (let (r, st1) = sdl2_poll_event keyname st;
          (rs, st2) = poll_times keyname n st1
      in (r # rs, st2))"

section \<open>deinit\<close>

text \<open>\<^verbatim>\<open>sdl2_deinit\<close>: \<^verbatim>\<open>SDL_Quit()\<close>, then \<^verbatim>\<open>return mp_const_none\<close>.\<close>

definition sdl2_deinit :: "sdl2_state \<Rightarrow> (error + mp_obj_t) \<times> sdl2_state" where
  "sdl2_deinit st = (Inr mp_const_none, SDL_Quit st)"

section \<open>The spec's words\<close>

text \<open>
  The pixel decoder as the spec words it: the \<open>n\<close>-bit field of the 16-bit value that
  starts at bit \<open>lo\<close>, and the rescaling \<open>channel * 255 / (2^n - 1)\<close> with the division
  truncated.
\<close>

definition spec_field :: "16 word \<Rightarrow> nat \<Rightarrow> nat \<Rightarrow> nat" where
  "spec_field v lo n = (unat v div 2 ^ lo) mod 2 ^ n"

definition spec_rescale :: "nat \<Rightarrow> nat \<Rightarrow> nat" where
  "spec_rescale n c = c * 255 div (2 ^ n - 1)"

text \<open>
  The frame as the spec words it. The pixel with index \<open>i\<close> is the 16-bit value at bytes
  \<open>2 i\<close> and \<open>2 i + 1\<close>; its colour request carries the three decoded channels and full
  opacity; it is painted as a single point at \<open>(x, y)\<close> when both scales are 1 and
  otherwise as the rectangle with origin \<open>(x * xScale, y * yScale)\<close>, width \<open>xScale\<close> and
  height \<open>yScale\<close>. A frame is, row by row and from left to right, the colour and the
  paint request of each pixel, and then one present.
\<close>

definition pixel_at :: "8 word list \<Rightarrow> nat \<Rightarrow> 16 word" where
  "pixel_at bytes i = ucast (bytes ! (2 * i)) OR push_bit 8 (ucast (bytes ! (2 * i + 1)))"

definition spec_color :: "sdl2_obj_t \<Rightarrow> 8 word list \<Rightarrow> nat \<Rightarrow> sdl_request" where
  "spec_color self bytes i =
     SDL_SetRenderDrawColor (renderer self)
       (of_nat (spec_rescale 5 (spec_field (pixel_at bytes i) 11 5)))
       (of_nat (spec_rescale 6 (spec_field (pixel_at bytes i) 5 6)))
       (of_nat (spec_rescale 5 (spec_field (pixel_at bytes i) 0 5)))
       255"

definition spec_paint :: "sdl2_obj_t \<Rightarrow> nat \<Rightarrow> nat \<Rightarrow> sdl_request" where
  "spec_paint self x y =
     (if x_scale self = 1 \<and> y_scale self = 1
      then SDL_RenderDrawPoint (renderer self) (word_of_int (int x)) (word_of_int (int y))
      else SDL_RenderFillRect (renderer self)
             (word_of_int (int x * sint (x_scale self)))
             (word_of_int (int y * sint (y_scale self)))
             (x_scale self) (y_scale self))"

definition spec_frame :: "sdl2_obj_t \<Rightarrow> 8 word list \<Rightarrow> sdl_request list" where
  "spec_frame self bytes =
     concat (map (\<lambda>y. concat (map (\<lambda>x. [spec_color self bytes (y * nat (sint (width self)) + x),
                                           spec_paint self x y])
                                 [0..<nat (sint (width self))]))
                 [0..<nat (sint (height self))])
     @ [SDL_RenderPresent (renderer self)]"

text \<open>
  The window pixels a paint request covers, the tile
  \<open>[x * xScale, (x + 1) * xScale) \<times> [y * yScale, (y + 1) * yScale)\<close> of the spec, and the
  scaled canvas \<open>[0, width * xScale) \<times> [0, height * yScale)\<close>.
\<close>

definition request_area :: "sdl_request \<Rightarrow> (int \<times> int) set" where
  "request_area r =
     (case r of
        SDL_RenderDrawPoint rdr px py \<Rightarrow> {(sint px, sint py)}
      | SDL_RenderFillRect rdr rx ry rw rh \<Rightarrow>
          {sint rx ..< sint rx + sint rw} \<times> {sint ry ..< sint ry + sint rh}
      | _ \<Rightarrow> {})"

definition pixel_tile :: "sdl2_obj_t \<Rightarrow> nat \<Rightarrow> nat \<Rightarrow> (int \<times> int) set" where
  "pixel_tile self x y =
     {int x * sint (x_scale self) ..< (int x + 1) * sint (x_scale self)}
     \<times> {int y * sint (y_scale self) ..< (int y + 1) * sint (y_scale self)}"

definition canvas :: "sdl2_obj_t \<Rightarrow> (int \<times> int) set" where
  "canvas self =
     {0 ..< sint (width self) * sint (x_scale self)}
     \<times> {0 ..< sint (height self) * sint (y_scale self)}"

text \<open>
  What the requests received say about a call that ended in \<open>r\<close>: none was taken back; a
  \<open>ValueError\<close> does not come out of the drawing loops; a \<open>RuntimeError\<close> comes after at
  least one request.
\<close>

definition issued_before_failure :: "sdl2_state \<Rightarrow> error + 'a \<Rightarrow> sdl2_state \<Rightarrow> bool" where
  "issued_before_failure st r st' =
     (length (requests st) \<le> length (requests st')
      \<and> (case r of
           Inl (ValueError m) \<Rightarrow> False
         | Inl (RuntimeError m) \<Rightarrow> length (requests st) < length (requests st')
         | _ \<Rightarrow> True))"

section \<open>Example inputs\<close>

text \<open>
  An open display of the given size and scales, a state in which it is the driver object
  and the queue holds the given events, and events of the kinds the examples use.
\<close>

definition display :: "c_int \<Rightarrow> c_int \<Rightarrow> c_int \<Rightarrow> c_int \<Rightarrow> sdl2_obj_t" where
  "display w h xs ys =
     \<lparr> pos_x = 0, pos_y = 0, width = w, height = h, title = ''MicroPython'',
       window_flags = 4, render_flags = 6, x_scale = xs, y_scale = ys,
       win = 1, renderer = 2 \<rparr>"

definition running :: "sdl2_obj_t \<Rightarrow> SDL_Event list \<Rightarrow> sdl2_state" where
  "running self q = \<lparr> obj = self, requests = [], event_queue = q, subsystem_up = True \<rparr>"

definition blank_event :: SDL_Event where
  "blank_event =
     \<lparr> ev_type = 0, key_keysym_sym = 0, key_keysym_mod = 0,
       motion_x = 0, motion_y = 0, motion_xrel = 0, motion_yrel = 0, motion_state = 0,
       button_x = 0, button_y = 0, button_button = 0,
       wheel_x = 0, wheel_y = 0, wheel_direction = 0,
       wheel_preciseX = 0, wheel_preciseY = 0, wheel_mouseX = 0, wheel_mouseY = 0 \<rparr>"

definition motion_event :: "c_int \<Rightarrow> c_int \<Rightarrow> c_int \<Rightarrow> c_int \<Rightarrow> 32 word \<Rightarrow> SDL_Event" where
  "motion_event px py rx ry s =
     blank_event\<lparr> ev_type := SDL_MOUSEMOTION, motion_x := px, motion_y := py,
                   motion_xrel := rx, motion_yrel := ry, motion_state := s \<rparr>"

definition wheel_event ::
  "c_int \<Rightarrow> c_int \<Rightarrow> 32 word \<Rightarrow> 32 word \<Rightarrow> 32 word \<Rightarrow> c_int \<Rightarrow> c_int \<Rightarrow> SDL_Event" where
  "wheel_event sx sy d fx fy mx my =
     blank_event\<lparr> ev_type := SDL_MOUSEWHEEL, wheel_x := sx, wheel_y := sy,
                   wheel_direction := d, wheel_preciseX := fx, wheel_preciseY := fy,
                   wheel_mouseX := mx, wheel_mouseY := my \<rparr>"

definition quit_event :: SDL_Event where
  "quit_event = blank_event\<lparr> ev_type := SDL_QUIT \<rparr>"

section \<open>Words and numbers\<close>

declare show_row.simps [simp del] show_rows.simps [simp del]

lemma unat_ucast_16_32: "unat (ucast (c :: 16 word) :: 32 word) = unat c"
proof -
  have "unat c < 2 ^ 16" using unsigned_less [of c] by simp
  then have "unat c < 2 ^ 32" by simp
  then show ?thesis by (simp add: unsigned_ucast_eq take_bit_nat_eq_self)
qed

lemma unat_drop_bit_32: "unat (drop_bit n (w :: 32 word)) = unat w div 2 ^ n"
  unfolding unat_drop_bit_eq by (simp add: drop_bit_eq_div)

lemma unat_and_63: "unat ((w :: 32 word) AND 0x3F) = unat w mod 64"
proof -
  have "(0x3F :: 32 word) = mask 6" by (simp add: mask_eq_exp_minus_1)
  then have "unat (w AND 0x3F) = unat (take_bit 6 w)" by (simp add: take_bit_eq_mask)
  also have "\<dots> = take_bit 6 (unat w)" by (simp add: unsigned_take_bit_eq)
  finally show ?thesis by (simp add: take_bit_eq_mod)
qed

lemma unat_and_31: "unat ((w :: 32 word) AND 0x1F) = unat w mod 32"
proof -
  have "(0x1F :: 32 word) = mask 5" by (simp add: mask_eq_exp_minus_1)
  then have "unat (w AND 0x1F) = unat (take_bit 5 w)" by (simp add: take_bit_eq_mask)
  also have "\<dots> = take_bit 5 (unat w)" by (simp add: unsigned_take_bit_eq)
  finally show ?thesis by (simp add: take_bit_eq_mod)
qed

lemma unat_times_255:
  assumes "unat (a :: 32 word) < 64"
  shows "unat (a * 255) = unat a * 255"
proof -
  have "unat a * unat (255 :: 32 word) < 2 ^ LENGTH(32)" using assms by simp
  then have "unat (a * 255) = unat a * unat (255 :: 32 word)" by (simp only: unat_mult_lem)
  then show ?thesis by simp
qed

lemma unat_ucast_32_8: "unat (w :: 32 word) \<le> 255 \<Longrightarrow> unat (ucast w :: 8 word) = unat w"
  by (simp add: unsigned_ucast_eq take_bit_nat_eq_self)

section \<open>The pixel decoder\<close>

lemma unat_pixel_r: "unat (pixel_r v) = (unat v div 2048) * 255 div 31"
proof -
  have lt: "unat v < 65536" using unsigned_less [of v] by simp
  have f: "unat (drop_bit 11 (ucast v :: 32 word)) = unat v div 2048"
    by (simp add: unat_drop_bit_32 unat_ucast_16_32)
  have "unat v div 2048 < 64" using lt by simp
  then have "unat (drop_bit 11 (ucast v :: 32 word) * 255) = (unat v div 2048) * 255"
    using f unat_times_255 [of "drop_bit 11 (ucast v :: 32 word)"] by simp
  then show ?thesis by (simp add: pixel_r_def unat_div)
qed

lemma unat_pixel_g: "unat (pixel_g v) = (unat v div 32 mod 64) * 255 div 63"
proof -
  have f: "unat (drop_bit 5 (ucast v :: 32 word) AND 0x3F) = unat v div 32 mod 64"
    by (simp add: unat_and_63 unat_drop_bit_32 unat_ucast_16_32)
  have "unat v div 32 mod 64 < 64" by simp
  then have "unat ((drop_bit 5 (ucast v :: 32 word) AND 0x3F) * 255) = (unat v div 32 mod 64) * 255"
    using f unat_times_255 [of "drop_bit 5 (ucast v :: 32 word) AND 0x3F"] by simp
  then show ?thesis by (simp add: pixel_g_def unat_div)
qed

lemma unat_pixel_b: "unat (pixel_b v) = (unat v mod 32) * 255 div 31"
proof -
  have f: "unat ((ucast v :: 32 word) AND 0x1F) = unat v mod 32"
    by (simp add: unat_and_31 unat_ucast_16_32)
  have "unat v mod 32 < 64" using mod_less_divisor [of 32 "unat v"] by linarith
  then have "unat (((ucast v :: 32 word) AND 0x1F) * 255) = (unat v mod 32) * 255"
    using f unat_times_255 [of "(ucast v :: 32 word) AND 0x1F"] by simp
  then show ?thesis by (simp add: pixel_b_def unat_div)
qed

lemma channels_as_spec:
  "(ucast (pixel_r v) :: 8 word) = of_nat (spec_rescale 5 (spec_field v 11 5))"
  "(ucast (pixel_g v) :: 8 word) = of_nat (spec_rescale 6 (spec_field v 5 6))"
  "(ucast (pixel_b v) :: 8 word) = of_nat (spec_rescale 5 (spec_field v 0 5))"
proof -
  have "unat v < 65536" using unsigned_less [of v] by simp
  then have hi: "unat v div 2048 < 32" by simp
  have "(ucast (pixel_r v) :: 8 word) = of_nat (unat (pixel_r v))" by simp
  then show "(ucast (pixel_r v) :: 8 word) = of_nat (spec_rescale 5 (spec_field v 11 5))"
    using hi by (simp add: unat_pixel_r spec_rescale_def spec_field_def)
  have "(ucast (pixel_g v) :: 8 word) = of_nat (unat (pixel_g v))" by simp
  then show "(ucast (pixel_g v) :: 8 word) = of_nat (spec_rescale 6 (spec_field v 5 6))"
    by (simp add: unat_pixel_g spec_rescale_def spec_field_def)
  have "(ucast (pixel_b v) :: 8 word) = of_nat (unat (pixel_b v))" by simp
  then show "(ucast (pixel_b v) :: 8 word) = of_nat (spec_rescale 5 (spec_field v 0 5))"
    by (simp add: unat_pixel_b spec_rescale_def spec_field_def)
qed

text \<open>
  C1. For every 16-bit colour \<open>v\<close>, the red, green and blue channels that \<^verbatim>\<open>sdl2_show\<close>
  computes are the fields at bits 15 to 11, 10 to 5 and 4 to 0, each times 255 and
  divided (truncating) by 31, 63 and 31; each is at most 255, and so is unchanged when
  it is passed to the library as an 8-bit value. The three channels are functions of
  \<open>v\<close> alone, defined for every \<open>v\<close>.
\<close>

theorem pixel_decoder_rescales:
  "unat (pixel_r v) = spec_rescale 5 (spec_field v 11 5)
   \<and> unat (pixel_g v) = spec_rescale 6 (spec_field v 5 6)
   \<and> unat (pixel_b v) = spec_rescale 5 (spec_field v 0 5)
   \<and> unat (pixel_r v) \<le> 255 \<and> unat (pixel_g v) \<le> 255 \<and> unat (pixel_b v) \<le> 255
   \<and> unat (ucast (pixel_r v) :: 8 word) = unat (pixel_r v)
   \<and> unat (ucast (pixel_g v) :: 8 word) = unat (pixel_g v)
   \<and> unat (ucast (pixel_b v) :: 8 word) = unat (pixel_b v)"
proof -
  have lt: "unat v < 65536" using unsigned_less [of v] by simp
  then have hi: "unat v div 2048 < 32" by simp
  have r: "unat (pixel_r v) = spec_rescale 5 (spec_field v 11 5)"
    using hi by (simp add: unat_pixel_r spec_rescale_def spec_field_def)
  have g: "unat (pixel_g v) = spec_rescale 6 (spec_field v 5 6)"
    by (simp add: unat_pixel_g spec_rescale_def spec_field_def)
  have b: "unat (pixel_b v) = spec_rescale 5 (spec_field v 0 5)"
    by (simp add: unat_pixel_b spec_rescale_def spec_field_def)
  have rb: "unat (pixel_r v) \<le> 255"
    using hi by (simp add: unat_pixel_r)
  have "unat v div 32 mod 64 < 64" by simp
  then have gb: "unat (pixel_g v) \<le> 255"
    unfolding unat_pixel_g by linarith
  have "unat v mod 32 < 32" by simp
  then have bb: "unat (pixel_b v) \<le> 255"
    unfolding unat_pixel_b by linarith
  show ?thesis
    using r g b rb gb bb by (simp add: unat_ucast_32_8)
qed

theorem pixel_decoder_rescales_witness:
  "unat (pixel_r 0xF800) = 255 \<and> unat (pixel_g 0x8410) = 129 \<and> unat (pixel_b 0x8410) = 131"
  using pixel_decoder_rescales [of "0xF800"] pixel_decoder_rescales [of "0x8410"]
  by (simp add: spec_rescale_def spec_field_def)

section \<open>Words and numbers, continued\<close>

lemma sint_of_nat_32:
  assumes "n < 2 ^ 31"
  shows "sint (of_nat n :: c_int) = int n"
proof -
  have "sint (of_nat n :: c_int) = signed_take_bit 31 (int n)"
    by (simp add: signed_of_nat)
  also have "\<dots> = int n"
    using assms by (intro signed_take_bit_int_eq_self) simp_all
  finally show ?thesis .
qed

lemma sint_word_of_int_32:
  assumes "- (2 ^ 31) \<le> n" and "n < 2 ^ 31"
  shows "sint (word_of_int n :: c_int) = n"
proof -
  have "sint (word_of_int n :: c_int) = signed_take_bit (LENGTH(32) - 1) n"
    by (rule sint_sbintrunc')
  also have "\<dots> = n"
    using assms by (simp add: signed_take_bit_int_eq_self)
  finally show ?thesis .
qed

lemma sint_times_in_range:
  assumes "- (2 ^ 31) \<le> sint (a :: c_int) * sint (b :: c_int)"
    and "sint a * sint b < 2 ^ 31"
  shows "sint (a * b) = sint a * sint b"
proof -
  have "sint (a * b) = signed_take_bit 31 (sint a * sint b)"
    by (simp add: sint_word_ariths)
  also have "\<dots> = sint a * sint b"
    using assms by (intro signed_take_bit_int_eq_self) simp_all
  finally show ?thesis .
qed

lemma c_div_positive:
  assumes "0 <s b"
  shows "c_div a b = Some (sint a sdiv sint b)"
proof -
  have "0 < sint b" using assms by (simp add: word_sless_alt)
  then show ?thesis by (simp add: c_div_def)
qed

section \<open>show: the frame\<close>

lemma read_u16_in_range:
  assumes "2 * i + 1 < length bytes" and "length bytes < 2 ^ 32"
  shows "read_u16 bytes (of_nat i) = Some (pixel_at bytes i)"
proof -
  have "i < 2 ^ 31" using assms by simp
  then have "sint (of_nat i :: c_int) = int i" by (rule sint_of_nat_32)
  then show ?thesis using assms(1) by (simp add: read_u16_def pixel_at_def)
qed

lemma show_pixel_ok:
  assumes "\<forall>rs r. be rs r = 0" and "2 * i + 1 < length bytes" and "length bytes < 2 ^ 32"
  shows "show_pixel be bytes (of_nat x) (of_nat y) (of_nat i) st =
           (Inr (), st\<lparr>requests := requests st @ [spec_color (obj st) bytes i,
                                                   spec_paint (obj st) x y]\<rparr>)"
  using assms(1) read_u16_in_range [OF assms(2,3)]
  by (simp add: show_pixel_def issue_def spec_color_def spec_paint_def channels_as_spec)

lemma show_row_ok:
  assumes be: "\<forall>rs r. be rs r = 0"
    and w: "sint (width (obj st)) = int W"
    and k: "x0 + k = W"
    and len: "2 * (i0 + k) \<le> length bytes" "length bytes < 2 ^ 32"
  shows "show_row be bytes (of_nat y) (of_nat x0) (of_nat i0) st =
           (Inr (of_nat (i0 + k)),
            st\<lparr>requests := requests st @
                  concat (map (\<lambda>j. [spec_color (obj st) bytes (i0 + j),
                                      spec_paint (obj st) (x0 + j) y]) [0..<k])\<rparr>)"
  using w k len
proof (induction k arbitrary: x0 i0 st)
  case 0
  have "W < 2 ^ 31"
    using sint_lt [of "width (obj st)"] "0.prems"(1) by simp
  then have "sint (of_nat W :: c_int) = int W" by (rule sint_of_nat_32)
  then have "\<not> (of_nat x0 :: c_int) <s width (obj st)"
    using "0.prems" by (simp add: word_sless_alt)
  then show ?case
    by (subst show_row.simps) simp
next
  case (Suc k)
  have Wlt: "W < 2 ^ 31"
    using sint_lt [of "width (obj st)"] Suc.prems(1) by simp
  have "x0 < W" using Suc.prems(2) by simp
  then have "sint (of_nat x0 :: c_int) = int x0"
    using Wlt by (intro sint_of_nat_32) simp
  then have lt: "(of_nat x0 :: c_int) <s width (obj st)"
    using \<open>x0 < W\<close> Suc.prems(1) by (simp add: word_sless_alt)
  let ?st1 = "st\<lparr>requests := requests st @ [spec_color (obj st) bytes i0,
                                                spec_paint (obj st) x0 y]\<rparr>"
  have px: "show_pixel be bytes (of_nat x0) (of_nat y) (of_nat i0) st = (Inr (), ?st1)"
    using Suc.prems(3,4) by (intro show_pixel_ok be) simp_all
  have ih: "show_row be bytes (of_nat y) (of_nat (Suc x0)) (of_nat (Suc i0)) ?st1 =
           (Inr (of_nat (Suc i0 + k)),
            ?st1\<lparr>requests := requests ?st1 @
                  concat (map (\<lambda>j. [spec_color (obj ?st1) bytes (Suc i0 + j),
                                      spec_paint (obj ?st1) (Suc x0 + j) y]) [0..<k])\<rparr>)"
    using Suc.prems by (intro Suc.IH) simp_all
  have step: "show_row be bytes (of_nat y) (of_nat x0) (of_nat i0) st =
        show_row be bytes (of_nat y) (of_nat (Suc x0)) (of_nat (Suc i0)) ?st1"
    using lt px by (subst show_row.simps) (simp add: add.commute)
  show ?case
    unfolding step ih by (simp add: map_upt_Suc del: upt_Suc)
qed

lemma show_rows_ok:
  assumes be: "\<forall>rs r. be rs r = 0"
    and w: "sint (width (obj st)) = int W"
    and h: "sint (height (obj st)) = int H"
    and m: "y0 + m = H"
    and len: "2 * (W * H) \<le> length bytes" "length bytes < 2 ^ 32"
  shows "show_rows be bytes (of_nat y0) (of_nat (y0 * W)) st =
           (Inr (of_nat ((y0 + m) * W)),
            st\<lparr>requests := requests st @
               concat (map (\<lambda>r. concat (map (\<lambda>x. [spec_color (obj st) bytes ((y0 + r) * W + x),
                                                    spec_paint (obj st) x (y0 + r)]) [0..<W]))
                           [0..<m])\<rparr>)"
  using w h m len
proof (induction m arbitrary: y0 st)
  case 0
  have "H < 2 ^ 31"
    using sint_lt [of "height (obj st)"] "0.prems"(2) by simp
  then have "sint (of_nat H :: c_int) = int H" by (rule sint_of_nat_32)
  then have "\<not> (of_nat y0 :: c_int) <s height (obj st)"
    using "0.prems" by (simp add: word_sless_alt)
  then show ?case
    by (subst show_rows.simps) simp
next
  case (Suc m)
  have Hlt: "H < 2 ^ 31"
    using sint_lt [of "height (obj st)"] Suc.prems(2) by simp
  have "y0 < H" using Suc.prems(3) by simp
  then have "sint (of_nat y0 :: c_int) = int y0"
    using Hlt by (intro sint_of_nat_32) simp
  then have lt: "(of_nat y0 :: c_int) <s height (obj st)"
    using \<open>y0 < H\<close> Suc.prems(2) by (simp add: word_sless_alt)
  let ?row = "concat (map (\<lambda>j. [spec_color (obj st) bytes (y0 * W + j),
                                  spec_paint (obj st) (0 + j) y0]) [0..<W])"
  let ?st1 = "st\<lparr>requests := requests st @ ?row\<rparr>"
  have "Suc y0 * W \<le> H * W"
    using \<open>y0 < H\<close> by (intro mult_le_mono1) simp
  then have fits: "2 * (y0 * W + W) \<le> length bytes"
    using Suc.prems(4) by (simp add: mult.commute)
  have row: "show_row be bytes (of_nat y0) (of_nat 0) (of_nat (y0 * W)) st =
               (Inr (of_nat (y0 * W + W)), ?st1)"
    using Suc.prems(1,5) fits by (intro show_row_ok be) simp_all
  have ih: "show_rows be bytes (of_nat (Suc y0)) (of_nat (Suc y0 * W)) ?st1 =
           (Inr (of_nat ((Suc y0 + m) * W)),
            ?st1\<lparr>requests := requests ?st1 @
               concat (map (\<lambda>r. concat (map (\<lambda>x. [spec_color (obj ?st1) bytes ((Suc y0 + r) * W + x),
                                                    spec_paint (obj ?st1) x (Suc y0 + r)]) [0..<W]))
                           [0..<m])\<rparr>)"
    using Suc.prems by (intro Suc.IH) simp_all
  have step: "show_rows be bytes (of_nat y0) (of_nat (y0 * W)) st =
        show_rows be bytes (of_nat (Suc y0)) (of_nat (Suc y0 * W)) ?st1"
    using lt row by (subst show_rows.simps) (simp add: add.commute)
  show ?case
    unfolding step ih by (simp add: map_upt_Suc del: upt_Suc)
qed

lemma show_draws_frame:
  assumes be: "\<forall>rs r. be rs r = 0"
    and w: "sint (width (obj st)) = int W" and h: "sint (height (obj st)) = int H"
    and len: "length bytes = 2 * (W * H)" "length bytes < 2 ^ 32"
  shows "sdl2_show be (mp_buffer (Some bytes) # others) st =
           (Inr mp_const_none, st\<lparr>requests := requests st @ spec_frame (obj st) bytes\<rparr>)"
proof -
  have "width (obj st) = word_of_int (sint (width (obj st)))" by simp
  then have wW: "width (obj st) = of_nat W" unfolding w by simp
  have "height (obj st) = word_of_int (sint (height (obj st)))" by simp
  then have hH: "height (obj st) = of_nat H" unfolding h by simp
  have "width (obj st) * height (obj st) * 2 = of_nat (2 * (W * H))"
    unfolding wW hH by simp
  then have "unat (width (obj st) * height (obj st) * 2) = (2 * (W * H)) mod 2 ^ 32"
    by (simp only: unat_of_nat) simp
  then have size_ok: "length bytes = unat (width (obj st) * height (obj st) * 2)"
    using len by simp
  let ?rows = "concat (map (\<lambda>r. concat (map (\<lambda>x. [spec_color (obj st) bytes ((0 + r) * W + x),
                                                    spec_paint (obj st) x (0 + r)]) [0..<W]))
                           [0..<H])"
  have "show_rows be bytes (of_nat 0) (of_nat (0 * W)) st =
           (Inr (of_nat ((0 + H) * W)), st\<lparr>requests := requests st @ ?rows\<rparr>)"
  proof (rule show_rows_ok [OF be w h _ _ len(2)])
    show "0 + H = H" by simp
    show "2 * (W * H) \<le> length bytes" using len(1) by simp
  qed
  then have rows: "show_rows be bytes 0 0 st =
           (Inr (of_nat (H * W)), st\<lparr>requests := requests st @ ?rows\<rparr>)"
    by simp
  have WH: "nat (sint (width (obj st))) = W" "nat (sint (height (obj st))) = H"
    using w h by simp_all
  show ?thesis
    unfolding sdl2_show_def
    using size_ok rows
    by (simp add: Let_def issue_def spec_frame_def WH)
qed

lemma strips_disjoint:
  fixes s :: int
  assumes "0 < s" and "a \<noteq> b"
  shows "{int a * s ..< (int a + 1) * s} \<inter> {int b * s ..< (int b + 1) * s} = {}"
proof -
  have one: "{int c * s ..< (int c + 1) * s} \<inter> {int d * s ..< (int d + 1) * s} = {}"
    if "c < d" for c d :: nat
  proof -
    have "int c + 1 \<le> int d" using that by simp
    then have "(int c + 1) * s \<le> int d * s"
      using assms(1) by (intro mult_right_mono) simp_all
    then show ?thesis by auto
  qed
  from assms(2) consider "a < b" | "b < a" by linarith
  then show ?thesis
  proof cases
    case 1
    then show ?thesis by (rule one)
  next
    case 2
    then show ?thesis using one [of b a] by (simp add: Int_commute)
  qed
qed

lemma strips_cover:
  fixes s :: int
  assumes "0 < s"
  shows "(\<Union>a<n. {int a * s ..< (int a + 1) * s}) = {0 ..< int n * s}"
proof (intro equalityI subsetI)
  fix p assume "p \<in> (\<Union>a<n. {int a * s ..< (int a + 1) * s})"
  then obtain a where a: "a < n" "int a * s \<le> p" "p < (int a + 1) * s" by auto
  have "int a + 1 \<le> int n" using a(1) by simp
  then have "(int a + 1) * s \<le> int n * s"
    using assms by (intro mult_right_mono) simp_all
  moreover have "0 \<le> int a * s" using assms by simp
  ultimately show "p \<in> {0 ..< int n * s}" using a by simp
next
  fix p assume "p \<in> {0 ..< int n * s}"
  then have p: "0 \<le> p" "p < int n * s" by simp_all
  define a where "a = nat (p div s)"
  have d: "0 \<le> p div s" using p(1) assms by (simp add: pos_imp_zdiv_nonneg_iff)
  then have ia: "int a = p div s" by (simp add: a_def)
  have eq: "p = s * (p div s) + p mod s" by simp
  have m: "0 \<le> p mod s" "p mod s < s" using assms by simp_all
  have "s * (p div s) \<le> p" using eq m(1) by linarith
  then have lo: "int a * s \<le> p" using ia by (simp add: mult.commute)
  have "p < s * (p div s) + s" using eq m(2) by linarith
  then have hi: "p < (int a + 1) * s" using ia by (simp add: algebra_simps)
  have "a < n"
  proof (rule ccontr)
    assume "\<not> a < n"
    then have "int n \<le> int a" by simp
    then have "int n * s \<le> int a * s"
      using assms by (intro mult_right_mono) simp_all
    with lo p(2) show False by simp
  qed
  with lo hi show "p \<in> (\<Union>a<n. {int a * s ..< (int a + 1) * s})" by auto
qed

lemma tiles_disjoint:
  assumes "0 < sint (x_scale self)" and "0 < sint (y_scale self)"
    and "(x, y) \<noteq> (x', y')"
  shows "pixel_tile self x y \<inter> pixel_tile self x' y' = {}"
proof (cases "x = x'")
  case False
  then have "{int x * sint (x_scale self) ..< (int x + 1) * sint (x_scale self)}
      \<inter> {int x' * sint (x_scale self) ..< (int x' + 1) * sint (x_scale self)} = {}"
    using assms(1) by (intro strips_disjoint)
  then show ?thesis unfolding pixel_tile_def by blast
next
  case True
  then have "y \<noteq> y'" using assms(3) by simp
  then have "{int y * sint (y_scale self) ..< (int y + 1) * sint (y_scale self)}
      \<inter> {int y' * sint (y_scale self) ..< (int y' + 1) * sint (y_scale self)} = {}"
    using assms(2) by (intro strips_disjoint)
  then show ?thesis unfolding pixel_tile_def by blast
qed

lemma tiles_cover:
  assumes "0 < sint (x_scale self)" and "0 < sint (y_scale self)"
    and "sint (width self) = int W" and "sint (height self) = int H"
  shows "(\<Union>y<H. \<Union>x<W. pixel_tile self x y) = canvas self"
proof -
  have "(\<Union>y<H. \<Union>x<W. pixel_tile self x y) =
        (\<Union>x<W. {int x * sint (x_scale self) ..< (int x + 1) * sint (x_scale self)})
        \<times> (\<Union>y<H. {int y * sint (y_scale self) ..< (int y + 1) * sint (y_scale self)})"
    unfolding pixel_tile_def by blast
  then show ?thesis
    using assms by (simp add: strips_cover canvas_def)
qed

lemma area_of_spec_paint:
  assumes xs: "0 < sint (x_scale self)" and ys: "0 < sint (y_scale self)"
    and w: "sint (width self) = int W" and h: "sint (height self) = int H"
    and fit: "sint (width self) * sint (x_scale self) < 2 ^ 31"
             "sint (height self) * sint (y_scale self) < 2 ^ 31"
    and x: "x < W" and y: "y < H"
  shows "request_area (spec_paint self x y) = pixel_tile self x y"
proof -
  have bx: "int x * sint (x_scale self) < 2 ^ 31"
  proof -
    have "int x * sint (x_scale self) \<le> int W * sint (x_scale self)"
      using x xs by (intro mult_right_mono) simp_all
    with fit(1) w show ?thesis by simp
  qed
  have "int y * sint (y_scale self) \<le> int H * sint (y_scale self)"
    using y ys by (intro mult_right_mono) simp_all
  with fit(2) h have by': "int y * sint (y_scale self) < 2 ^ 31" by simp
  have "0 \<le> int x * sint (x_scale self)" using xs by simp
  then have px: "sint (word_of_int (int x * sint (x_scale self)) :: c_int) = int x * sint (x_scale self)"
    using bx by (intro sint_word_of_int_32) simp_all
  have "0 \<le> int y * sint (y_scale self)" using ys by simp
  then have py: "sint (word_of_int (int y * sint (y_scale self)) :: c_int) = int y * sint (y_scale self)"
    using by' by (intro sint_word_of_int_32) simp_all
  show ?thesis
  proof (cases "x_scale self = 1 \<and> y_scale self = 1")
    case True
    then have one: "sint (x_scale self) = 1" "sint (y_scale self) = 1" by simp_all
    have "sint (word_of_int (int x) :: c_int) = int x" using px one by simp
    moreover have "sint (word_of_int (int y) :: c_int) = int y" using py one by simp
    ultimately show ?thesis
      using True one by (auto simp: spec_paint_def request_area_def pixel_tile_def)
  next
    case False
    then have "spec_paint self x y =
        SDL_RenderFillRect (renderer self)
          (word_of_int (int x * sint (x_scale self)))
          (word_of_int (int y * sint (y_scale self)))
          (x_scale self) (y_scale self)"
      unfolding spec_paint_def by (rule if_not_P)
    then have "request_area (spec_paint self x y) =
        {int x * sint (x_scale self) ..< int x * sint (x_scale self) + sint (x_scale self)}
        \<times> {int y * sint (y_scale self) ..< int y * sint (y_scale self) + sint (y_scale self)}"
      by (simp only: request_area_def sdl_request.case px py)
    then show ?thesis
      by (simp add: pixel_tile_def algebra_simps)
  qed
qed

text \<open>
  C2. For positive width, height, x_scale and y_scale whose scaled canvas fits a C
  \<^verbatim>\<open>int\<close>, a buffer of width * height * 2 bytes and a backend whose calls all succeed,
  \<^verbatim>\<open>sdl2_show\<close> returns \<^verbatim>\<open>None\<close> and sends exactly the requests of \<open>spec_frame\<close>: for each
  pixel (x, y), row by row, its colour and then one paint request, which is the point
  (x, y) when both scales are 1 and otherwise the rectangle with origin
  (x * x_scale, y * y_scale), width x_scale and height y_scale; then one present. What
  the paint request of pixel (x, y) covers is the tile
  [x * x_scale, (x + 1) * x_scale) \<times> [y * y_scale, (y + 1) * y_scale); the tiles of two
  different pixels are disjoint; and the tiles of all the pixels together are exactly
  the canvas [0, width * x_scale) \<times> [0, height * y_scale).
\<close>

theorem show_paints_disjoint_tiles:
  assumes "\<forall>rs r. be rs r = 0"
    and "0 <s width (obj st)" and "0 <s height (obj st)"
    and "0 <s x_scale (obj st)" and "0 <s y_scale (obj st)"
    and "sint (width (obj st)) * sint (x_scale (obj st)) < 2 ^ 31"
    and "sint (height (obj st)) * sint (y_scale (obj st)) < 2 ^ 31"
    and "int (length bytes) = sint (width (obj st)) * sint (height (obj st)) * 2"
    and "length bytes < 2 ^ 32"
  shows "sdl2_show be (mp_buffer (Some bytes) # others) st =
           (Inr mp_const_none, st\<lparr>requests := requests st @ spec_frame (obj st) bytes\<rparr>)
       \<and> (\<forall>y < nat (sint (height (obj st))). \<forall>x < nat (sint (width (obj st))).
            request_area (spec_paint (obj st) x y) = pixel_tile (obj st) x y)
       \<and> (\<forall>y < nat (sint (height (obj st))). \<forall>x < nat (sint (width (obj st))).
          \<forall>y' < nat (sint (height (obj st))). \<forall>x' < nat (sint (width (obj st))).
            (x, y) \<noteq> (x', y') \<longrightarrow>
            pixel_tile (obj st) x y \<inter> pixel_tile (obj st) x' y' = {})
       \<and> (\<Union>y < nat (sint (height (obj st))). \<Union>x < nat (sint (width (obj st))).
            pixel_tile (obj st) x y) = canvas (obj st)"
proof -
  define W where "W = nat (sint (width (obj st)))"
  define H where "H = nat (sint (height (obj st)))"
  have w: "sint (width (obj st)) = int W" and h: "sint (height (obj st)) = int H"
    using assms(2,3) by (simp_all add: W_def H_def word_sless_alt)
  have xs: "0 < sint (x_scale (obj st))" and ys: "0 < sint (y_scale (obj st))"
    using assms(4,5) by (simp_all add: word_sless_alt)
  have "int (length bytes) = int (2 * (W * H))"
    using assms(8) w h by simp
  then have len: "length bytes = 2 * (W * H)" by (simp only: of_nat_eq_iff)
  have frame: "sdl2_show be (mp_buffer (Some bytes) # others) st =
           (Inr mp_const_none, st\<lparr>requests := requests st @ spec_frame (obj st) bytes\<rparr>)"
    using assms(1) w h len assms(9) by (rule show_draws_frame)
  have area: "request_area (spec_paint (obj st) x y) = pixel_tile (obj st) x y"
    if "y < H" "x < W" for x y
    using xs ys w h assms(6,7) that(2,1) by (rule area_of_spec_paint)
  have disj: "pixel_tile (obj st) x y \<inter> pixel_tile (obj st) x' y' = {}"
    if "(x, y) \<noteq> (x', y')" for x y x' y'
    using xs ys that by (rule tiles_disjoint)
  have cover: "(\<Union>y<H. \<Union>x<W. pixel_tile (obj st) x y) = canvas (obj st)"
    using xs ys w h by (rule tiles_cover)
  show ?thesis
    unfolding W_def [symmetric] H_def [symmetric]
    using frame area disj cover by blast
qed

theorem show_paints_disjoint_tiles_witness:
  "sdl2_show (\<lambda>rs r. 0) [mp_buffer (Some [0, 0xF8, 0x1F, 0])] (running (display 2 1 3 2) []) =
     (Inr mp_const_none,
      (running (display 2 1 3 2) [])
        \<lparr>requests := [SDL_SetRenderDrawColor 2 255 0 0 255, SDL_RenderFillRect 2 0 0 3 2,
                      SDL_SetRenderDrawColor 2 0 0 255 255, SDL_RenderFillRect 2 3 0 3 2,
                      SDL_RenderPresent 2]\<rparr>)
   \<and> request_area (SDL_RenderFillRect 2 0 0 3 2) = {0..<3} \<times> {0..<2}
   \<and> request_area (SDL_RenderFillRect 2 3 0 3 2) = {3..<6} \<times> {0..<2}
   \<and> ({0..<3} \<times> {0..<2}) \<inter> ({3..<6} \<times> {0..<2}) = ({} :: (int \<times> int) set)
   \<and> ({0..<3} \<times> {0..<2}) \<union> ({3..<6} \<times> {0..<2}) = canvas (display 2 1 3 2)"
proof -
  let ?st = "running (display 2 1 3 2) []"
  let ?bytes = "[0, 0xF8, 0x1F, 0] :: 8 word list"
  have be: "\<forall>rs r. (\<lambda>rs r. 0 :: int) rs r = 0" by simp
  have pos: "0 <s width (obj ?st)" "0 <s height (obj ?st)"
    "0 <s x_scale (obj ?st)" "0 <s y_scale (obj ?st)"
    by (simp_all add: running_def display_def word_sless_alt)
  have fit: "sint (width (obj ?st)) * sint (x_scale (obj ?st)) < 2 ^ 31"
    "sint (height (obj ?st)) * sint (y_scale (obj ?st)) < 2 ^ 31"
    by (simp_all add: running_def display_def)
  have len: "int (length ?bytes) = sint (width (obj ?st)) * sint (height (obj ?st)) * 2"
    "length ?bytes < 2 ^ 32"
    by (simp_all add: running_def display_def)
  note inst = show_paints_disjoint_tiles [OF be pos fit len, of "[]"]
  have size: "nat (sint (width (obj ?st))) = 2" "nat (sint (height (obj ?st))) = 1"
    by (simp_all add: running_def display_def)
  have two: "[0..<2::nat] = [0, 1]"
    by (simp add: numeral_2_eq_2)
  have frame: "spec_frame (obj ?st) ?bytes =
      [SDL_SetRenderDrawColor 2 255 0 0 255, SDL_RenderFillRect 2 0 0 3 2,
       SDL_SetRenderDrawColor 2 0 0 255 255, SDL_RenderFillRect 2 3 0 3 2,
       SDL_RenderPresent 2]"
    by (simp add: spec_frame_def spec_color_def spec_paint_def pixel_at_def
        spec_rescale_def spec_field_def running_def display_def two)
  have paint: "spec_paint (obj ?st) 0 0 = SDL_RenderFillRect 2 0 0 3 2"
    "spec_paint (obj ?st) 1 0 = SDL_RenderFillRect 2 3 0 3 2"
    by (simp_all add: spec_paint_def running_def display_def)
  have tile: "pixel_tile (obj ?st) 0 0 = {0..<3} \<times> {0..<2}"
    "pixel_tile (obj ?st) 1 0 = {3..<6} \<times> {0..<2}"
    by (simp_all add: pixel_tile_def running_def display_def)
  note frame_eq = inst [THEN conjunct1]
  note areas = inst [THEN conjunct2, THEN conjunct1, unfolded size]
  note disjoint = inst [THEN conjunct2, THEN conjunct2, THEN conjunct1, unfolded size]
  note cover = inst [THEN conjunct2, THEN conjunct2, THEN conjunct2, unfolded size]
  have a0: "request_area (SDL_RenderFillRect 2 0 0 3 2) = {0..<3} \<times> {0..<2}"
    using areas [rule_format, of 0 0] unfolding paint tile by simp
  have a1: "request_area (SDL_RenderFillRect 2 3 0 3 2) = {3..<6} \<times> {0..<2}"
    using areas [rule_format, of 0 1] unfolding paint tile by simp
  have d: "({0..<3} \<times> {0..<2}) \<inter> ({3..<6} \<times> {0..<2}) = ({} :: (int \<times> int) set)"
    using disjoint [rule_format, of 0 0 0 1] unfolding tile by simp
  have "{..<2::nat} = {0, 1}" by auto
  moreover have "{..<1::nat} = {0}" by auto
  ultimately have "(\<Union>y<1. \<Union>x<2. pixel_tile (obj ?st) x y) =
      pixel_tile (obj ?st) 0 0 \<union> pixel_tile (obj ?st) 1 0"
    by simp
  with cover have c: "({0..<3} \<times> {0..<2}) \<union> ({3..<6} \<times> {0..<2}) = canvas (display 2 1 3 2)"
    unfolding tile by (simp add: running_def)
  show ?thesis
    using frame_eq a0 a1 d c unfolding frame by (simp add: running_def)
qed

section \<open>show: the two checks\<close>

text \<open>
  A buffer object whose data pointer is null is answered by \<open>ValueError\<close>, and so is a
  buffer whose length is not the 32-bit product; the state is then unchanged. Where the
  product does not wrap, this is every length but width * height * 2.
\<close>

lemma show_null_buffer:
  "sdl2_show be (mp_buffer None # others) st = (Inl (ValueError ''no buffer''), st)"
  by (simp add: sdl2_show_def)

lemma show_size_mismatch:
  assumes "length bytes \<noteq> unat (width (obj st) * height (obj st) * 2)"
  shows "sdl2_show be (mp_buffer (Some bytes) # others) st =
           (Inl (ValueError ''buffer size mismatch''), st)"
  using assms by (simp add: sdl2_show_def)

lemma unat_size_no_wrap:
  assumes "0 \<le> sint (width self)" and "0 \<le> sint (height self)"
    and "sint (width self) * sint (height self) * 2 < 2 ^ 32"
  shows "int (unat (width self * height self * 2)) = sint (width self) * sint (height self) * 2"
proof -
  define W where "W = nat (sint (width self))"
  define H where "H = nat (sint (height self))"
  have w: "sint (width self) = int W" and h: "sint (height self) = int H"
    using assms(1,2) by (simp_all add: W_def H_def)
  have "width self = word_of_int (sint (width self))" by simp
  then have wW: "width self = of_nat W" unfolding w by simp
  have "height self = word_of_int (sint (height self))" by simp
  then have hH: "height self = of_nat H" unfolding h by simp
  have "int (W * H * 2) < 2 ^ 32" using assms(3) w h by simp
  then have small: "W * H * 2 < 2 ^ 32" by (simp only: of_nat_less_numeral_power_cancel_iff)
  have "width self * height self * 2 = of_nat (W * H * 2)"
    unfolding wW hH by simp
  then have "unat (width self * height self * 2) = (W * H * 2) mod 2 ^ 32"
    by (simp only: unat_of_nat) simp
  then have "unat (width self * height self * 2) = W * H * 2"
    using small by simp
  then show ?thesis using w h by simp
qed

lemma show_wrong_length_no_wrap:
  assumes "0 \<le> sint (width (obj st))" and "0 \<le> sint (height (obj st))"
    and "sint (width (obj st)) * sint (height (obj st)) * 2 < 2 ^ 32"
    and "int (length bytes) \<noteq> sint (width (obj st)) * sint (height (obj st)) * 2"
  shows "sdl2_show be (mp_buffer (Some bytes) # others) st =
           (Inl (ValueError ''buffer size mismatch''), st)"
proof -
  have "int (length bytes) \<noteq> int (unat (width (obj st) * height (obj st) * 2))"
    using assms(4) unat_size_no_wrap [OF assms(1-3)] by simp
  then have "length bytes \<noteq> unat (width (obj st) * height (obj st) * 2)" by auto
  then show ?thesis by (rule show_size_mismatch)
qed

lemma issued_show_pixel:
  "show_pixel be bytes xx yy i st = (r, st1) \<Longrightarrow> issued_before_failure st r st1"
  unfolding show_pixel_def issue_def issued_before_failure_def
  by (auto simp: Let_def split: option.splits if_splits)

lemma issued_trans:
  assumes "issued_before_failure st (Inr u) st1" and "issued_before_failure st1 r st2"
  shows "issued_before_failure st r st2"
  using assms unfolding issued_before_failure_def
  by (auto split: sum.splits error.splits)

lemma issued_show_row:
  "show_row be bytes yy xx i st = (r, st2) \<Longrightarrow> issued_before_failure st r st2"
proof (induction be bytes yy xx i st arbitrary: r st2 rule: show_row.induct)
  case (1 be bytes yy xx i st)
  show ?case
  proof (cases "xx <s width (obj st)")
    case False
    then have "show_row be bytes yy xx i st = (Inr i, st)"
      by (subst show_row.simps) simp
    with "1.prems" show ?thesis
      by (auto simp: issued_before_failure_def)
  next
    case True
    obtain p st1 where px: "show_pixel be bytes xx yy i st = (p, st1)"
      by (cases "show_pixel be bytes xx yy i st")
    have bf: "issued_before_failure st p st1"
      using px by (rule issued_show_pixel)
    show ?thesis
    proof (cases p)
      case (Inl e)
      then have "show_row be bytes yy xx i st = (Inl e, st1)"
        using True px by (subst show_row.simps) simp
      with "1.prems" have "r = Inl e" "st2 = st1" by simp_all
      with bf Inl show ?thesis
        by (simp add: issued_before_failure_def)
    next
      case (Inr u)
      then have eq: "show_row be bytes yy xx i st = show_row be bytes yy (xx + 1) (i + 1) st1"
        using True px by (subst show_row.simps) simp
      have "issued_before_failure (snd (show_pixel be bytes xx yy i st)) r st2"
      proof (rule "1.IH" [OF True refl])
        show "fst (show_pixel be bytes xx yy i st) = Inr u" using px Inr by simp
        show "show_row be bytes yy (xx + 1) (i + 1) (snd (show_pixel be bytes xx yy i st)) = (r, st2)"
          using "1.prems" eq px by simp
      qed
      then have "issued_before_failure st1 r st2" using px by simp
      moreover have "issued_before_failure st (Inr u) st1" using bf Inr by simp
      ultimately show ?thesis by (rule issued_trans [rotated])
    qed
  qed
qed

lemma issued_show_rows:
  "show_rows be bytes yy i st = (r, st2) \<Longrightarrow> issued_before_failure st r st2"
proof (induction be bytes yy i st arbitrary: r st2 rule: show_rows.induct)
  case (1 be bytes yy i st)
  show ?case
  proof (cases "yy <s height (obj st)")
    case False
    then have "show_rows be bytes yy i st = (Inr i, st)"
      by (subst show_rows.simps) simp
    with "1.prems" show ?thesis
      by (auto simp: issued_before_failure_def)
  next
    case True
    obtain p st1 where row: "show_row be bytes yy 0 i st = (p, st1)"
      by (cases "show_row be bytes yy 0 i st")
    have bf: "issued_before_failure st p st1"
      using row by (rule issued_show_row)
    show ?thesis
    proof (cases p)
      case (Inl e)
      then have "show_rows be bytes yy i st = (Inl e, st1)"
        using True row by (subst show_rows.simps) simp
      with "1.prems" have "r = Inl e" "st2 = st1" by simp_all
      with bf Inl show ?thesis
        by (simp add: issued_before_failure_def)
    next
      case (Inr j)
      then have eq: "show_rows be bytes yy i st = show_rows be bytes (yy + 1) j st1"
        using True row by (subst show_rows.simps) simp
      have "issued_before_failure (snd (show_row be bytes yy 0 i st)) r st2"
      proof (rule "1.IH" [OF True refl])
        show "fst (show_row be bytes yy 0 i st) = Inr j" using row Inr by simp
        show "show_rows be bytes (yy + 1) j (snd (show_row be bytes yy 0 i st)) = (r, st2)"
          using "1.prems" eq row by simp
      qed
      then have "issued_before_failure st1 r st2" using row by simp
      moreover have "issued_before_failure st (Inr j) st1" using bf Inr by simp
      ultimately show ?thesis by (rule issued_trans [rotated])
    qed
  qed
qed

lemma show_error_classes:
  "(fst (sdl2_show be rest st) = Inl (ValueError m) \<longrightarrow> snd (sdl2_show be rest st) = st)
   \<and> (fst (sdl2_show be rest st) = Inl (RuntimeError m) \<longrightarrow>
        length (requests st) < length (requests (snd (sdl2_show be rest st))))"
proof (cases rest)
  case Nil
  then show ?thesis by (simp add: sdl2_show_def)
next
  case (Cons a others)
  show ?thesis
  proof (cases "mp_get_buffer a")
    case None
    with Cons show ?thesis by (simp add: sdl2_show_def)
  next
    case got: (Some b)
    show ?thesis
    proof (cases b)
      case None
      with Cons got show ?thesis by (simp add: sdl2_show_def)
    next
      case (Some bytes)
      show ?thesis
      proof (cases "length bytes \<noteq> unat (width (obj st) * height (obj st) * 2)")
        case True
        with Cons got Some show ?thesis
          by (simp add: sdl2_show_def)
      next
        case False
        obtain r st1 where rows: "show_rows be bytes 0 0 st = (r, st1)"
          by (cases "show_rows be bytes 0 0 st")
        then have bf: "issued_before_failure st r st1"
          by (rule issued_show_rows)
        show ?thesis
        proof (cases r)
          case (Inl e)
          then have "sdl2_show be rest st = (Inl e, st1)"
            using Cons got Some False rows by (simp add: sdl2_show_def)
          then show ?thesis
            using bf Inl by (auto simp: issued_before_failure_def)
        next
          case (Inr j)
          then have "fst (sdl2_show be rest st) = Inr mp_const_none"
            using Cons got Some False rows by (simp add: sdl2_show_def)
          then show ?thesis by simp
        qed
      qed
    qed
  qed
qed

text \<open>
  C5. The spec has a missing buffer, and every buffer whose length is not
  width * height * 2, answered by a caller error before anything is drawn. The code
  does not do so on these inputs. Called with no buffer argument (the method is
  registered for one or two arguments) it reads \<^verbatim>\<open>args[1]\<close> outside the argument array;
  called with an object that has no buffer protocol it reads \<^verbatim>\<open>bufinfo\<close> uninitialised:
  neither call is answered by \<open>ValueError\<close>. For width 65536 and height 32768 the
  unsigned product width * height * 2 wraps to 0, so the empty buffer, whose length is
  not 2^32, passes the size test, and the first pixel is read outside the buffer.
\<close>

theorem show_missing_or_wrapped_not_rejected:
  "sdl2_show be [] st = (Inl (Undefined ''args[1] is outside the argument array''), st)
   \<and> sdl2_show be [mp_const_none] st = (Inl (Undefined ''bufinfo is uninitialised''), st)
   \<and> int (length ([] :: 8 word list)) \<noteq> sint (65536 :: c_int) * sint (32768 :: c_int) * 2
   \<and> sdl2_show be [mp_buffer (Some [])] (running (display 65536 32768 xs ys) []) =
       (Inl (Undefined ''read outside the buffer''), running (display 65536 32768 xs ys) [])"
proof -
  let ?st = "running (display 65536 32768 xs ys) []"
  have a: "sdl2_show be [] st = (Inl (Undefined ''args[1] is outside the argument array''), st)"
    by (simp add: sdl2_show_def)
  have b: "sdl2_show be [mp_const_none] st = (Inl (Undefined ''bufinfo is uninitialised''), st)"
    by (simp add: sdl2_show_def)
  have c: "int (length ([] :: 8 word list)) \<noteq> sint (65536 :: c_int) * sint (32768 :: c_int) * 2"
    by simp
  have size: "unat (width (obj ?st) * height (obj ?st) * 2) = 0"
    by (simp add: running_def display_def)
  have px: "show_pixel be [] 0 0 0 ?st = (Inl (Undefined ''read outside the buffer''), ?st)"
    by (simp add: show_pixel_def read_u16_def)
  have "(0 :: c_int) <s width (obj ?st)"
    by (simp add: running_def display_def word_sless_alt)
  then have row: "show_row be [] 0 0 0 ?st = (Inl (Undefined ''read outside the buffer''), ?st)"
    using px by (subst show_row.simps) simp
  have "(0 :: c_int) <s height (obj ?st)"
    by (simp add: running_def display_def word_sless_alt)
  then have rows: "show_rows be [] 0 0 ?st = (Inl (Undefined ''read outside the buffer''), ?st)"
    using row by (subst show_rows.simps) simp
  have d: "sdl2_show be [mp_buffer (Some [])] ?st =
       (Inl (Undefined ''read outside the buffer''), ?st)"
    using size rows by (simp add: sdl2_show_def)
  from a b c d show ?thesis by blast
qed

section \<open>poll_event\<close>

lemma poll_empty:
  assumes "event_queue st = []"
  shows "sdl2_poll_event keyname st = (Inr mp_const_none, st)"
  using assms by (simp add: sdl2_poll_event_def SDL_PollEvent_def)

lemma poll_nonempty:
  assumes "event_queue st = event # es"
  shows "sdl2_poll_event keyname st =
           (event_tuple keyname (obj st) event, st\<lparr>event_queue := es\<rparr>)"
  using assms by (simp add: sdl2_poll_event_def SDL_PollEvent_def)

lemmas event_kinds = SDL_QUIT_def SDL_KEYDOWN_def SDL_KEYUP_def SDL_MOUSEMOTION_def
  SDL_MOUSEBUTTONDOWN_def SDL_MOUSEBUTTONUP_def SDL_MOUSEWHEEL_def

lemmas mp_new_defs = mp_obj_new_int_def mp_obj_new_str_def mp_obj_new_tuple_def

text \<open>
  C3. With positive scales, a poll whose oldest queued event is a pointer motion returns
  the 6-tuple (type, x / x_scale, y / y_scale, xrel / x_scale, yrel / y_scale, state),
  where each quotient is the C integer division (truncated towards zero), and takes
  that event off the queue. With x_scale 2 and y_scale 1 the motion (10, 10, 4, 4) with
  button state 1 becomes (1024, 5, 10, 2, 4, 1).
\<close>

theorem poll_motion_scaled:
  assumes "event_queue st = event # es" and "ev_type event = SDL_MOUSEMOTION"
    and "0 <s x_scale (obj st)" and "0 <s y_scale (obj st)"
  shows "sdl2_poll_event keyname st =
           (Inr (mp_tuple
                  [mp_int (uint (ev_type event)),
                   mp_int (sint (motion_x event) sdiv sint (x_scale (obj st))),
                   mp_int (sint (motion_y event) sdiv sint (y_scale (obj st))),
                   mp_int (sint (motion_xrel event) sdiv sint (x_scale (obj st))),
                   mp_int (sint (motion_yrel event) sdiv sint (y_scale (obj st))),
                   mp_int (uint (motion_state event))]),
            st\<lparr>event_queue := es\<rparr>)"
proof -
  have "event_tuple keyname (obj st) event =
          Inr (mp_tuple
                  [mp_int (uint (ev_type event)),
                   mp_int (sint (motion_x event) sdiv sint (x_scale (obj st))),
                   mp_int (sint (motion_y event) sdiv sint (y_scale (obj st))),
                   mp_int (sint (motion_xrel event) sdiv sint (x_scale (obj st))),
                   mp_int (sint (motion_yrel event) sdiv sint (y_scale (obj st))),
                   mp_int (uint (motion_state event))])"
    using assms(2-4) by (simp add: event_tuple_def event_kinds mp_new_defs c_div_positive)
  then show ?thesis
    using assms(1) by (simp add: poll_nonempty)
qed

theorem poll_motion_scaled_witness:
  "sdl2_poll_event (\<lambda>k. []) (running (display 320 240 2 1) [motion_event 10 10 4 4 1]) =
     (Inr (mp_tuple [mp_int 1024, mp_int 5, mp_int 10, mp_int 2, mp_int 4, mp_int 1]),
      running (display 320 240 2 1) [])"
proof -
  let ?st = "running (display 320 240 2 1) [motion_event 10 10 4 4 1]"
  have q: "event_queue ?st = motion_event 10 10 4 4 1 # []"
    by (simp add: running_def)
  have k: "ev_type (motion_event 10 10 4 4 1) = SDL_MOUSEMOTION"
    by (simp add: motion_event_def)
  have xs: "0 <s x_scale (obj ?st)" and ys: "0 <s y_scale (obj ?st)"
    by (simp_all add: running_def display_def word_sless_alt)
  show ?thesis
    using poll_motion_scaled [OF q k xs ys, of "\<lambda>k. []"]
    by (simp add: running_def display_def motion_event_def blank_event_def event_kinds
        signed_divide_int_def)
qed

lemma poll_wheel:
  assumes "event_queue st = event # es" and "ev_type event = SDL_MOUSEWHEEL"
    and "0 <s x_scale (obj st)"
  shows "sdl2_poll_event keyname st =
           (Inr (mp_tuple
                  [mp_int (uint (ev_type event)),
                   mp_int (sint (wheel_x event) sdiv sint (x_scale (obj st))),
                   mp_int (sint (wheel_y event) sdiv sint (x_scale (obj st))),
                   mp_int (uint (wheel_direction event)),
                   MP_OBJ_NULL, MP_OBJ_NULL, MP_OBJ_NULL, MP_OBJ_NULL]),
            st\<lparr>event_queue := es\<rparr>)"
proof -
  have "event_tuple keyname (obj st) event =
          Inr (mp_tuple
                  [mp_int (uint (ev_type event)),
                   mp_int (sint (wheel_x event) sdiv sint (x_scale (obj st))),
                   mp_int (sint (wheel_y event) sdiv sint (x_scale (obj st))),
                   mp_int (uint (wheel_direction event)),
                   MP_OBJ_NULL, MP_OBJ_NULL, MP_OBJ_NULL, MP_OBJ_NULL])"
    using assms(2-3) by (simp add: event_tuple_def event_kinds mp_new_defs c_div_positive)
  then show ?thesis
    using assms(1) by (simp add: poll_nonempty)
qed

text \<open>
  C4. The spec has the wheel tuple carry preciseX, preciseY, mouseX and mouseY of the
  event in its entries 4 to 7. The code does not: the array \<^verbatim>\<open>mouse_wheel[8]\<close> has only
  four initialisers, so the tuple of eight entries is the type, x / x_scale,
  y / x_scale, the direction, and four null object pointers. Evaluated with x_scale 2
  and y_scale 3 on the wheel event with x = 6, y = 6, direction 1, preciseX 1.5 and
  preciseY 2.5 (as their 32 bits) and the mouse at (100, 50).
\<close>

theorem poll_wheel_drops_precise_and_mouse:
  "sdl2_poll_event (\<lambda>k. [])
       (running (display 320 240 2 3) [wheel_event 6 6 1 0x3FC00000 0x40200000 100 50]) =
     (Inr (mp_tuple [mp_int 1027, mp_int 3, mp_int 3, mp_int 1,
                     MP_OBJ_NULL, MP_OBJ_NULL, MP_OBJ_NULL, MP_OBJ_NULL]),
      running (display 320 240 2 3) [])"
proof -
  let ?e = "wheel_event 6 6 1 0x3FC00000 0x40200000 100 50"
  let ?st = "running (display 320 240 2 3) [?e]"
  have q: "event_queue ?st = ?e # []"
    by (simp add: running_def)
  have k: "ev_type ?e = SDL_MOUSEWHEEL"
    by (simp add: wheel_event_def)
  have xs: "0 <s x_scale (obj ?st)"
    by (simp add: running_def display_def word_sless_alt)
  show ?thesis
    using poll_wheel [OF q k xs, of "\<lambda>k. []"]
    by (simp add: running_def display_def wheel_event_def blank_event_def event_kinds
        signed_divide_int_def)
qed

lemma event_tuple_other:
  assumes "ev_type event \<noteq> SDL_KEYDOWN" "ev_type event \<noteq> SDL_KEYUP"
    "ev_type event \<noteq> SDL_MOUSEMOTION" "ev_type event \<noteq> SDL_MOUSEBUTTONDOWN"
    "ev_type event \<noteq> SDL_MOUSEBUTTONUP" "ev_type event \<noteq> SDL_MOUSEWHEEL"
  shows "event_tuple keyname self event = Inr (mp_tuple [mp_int (uint (ev_type event))])"
  using assms by (simp add: event_tuple_def mp_new_defs)

lemma event_tuple_index0:
  assumes "event_tuple keyname self event = Inr (mp_tuple items)"
  shows "items \<noteq> [] \<and> items ! 0 = mp_int (uint (ev_type event))"
  using assms
  by (auto simp: event_tuple_def mp_new_defs split: if_splits option.splits)

lemma event_tuple_positive:
  assumes "0 <s x_scale self" "0 <s y_scale self"
  shows "\<exists>items. event_tuple keyname self event = Inr (mp_tuple items)"
  using assms by (simp add: event_tuple_def mp_new_defs c_div_positive)

text \<open>
  C7. A poll whose oldest queued event is of none of the six kinds key down, key up,
  pointer motion, pointer button down, pointer button up and pointer wheel returns the
  1-tuple (type,) and takes the event off the queue; the quit request is such an event.
  Whenever a poll returns a tuple, the queue was not empty, the tuple is not empty, and
  its entry 0 is the type of the event that was the oldest in the queue.
\<close>

theorem poll_fallback_and_index0:
  "(event_queue st = event # es \<and> ev_type event \<noteq> SDL_KEYDOWN \<and> ev_type event \<noteq> SDL_KEYUP
      \<and> ev_type event \<noteq> SDL_MOUSEMOTION \<and> ev_type event \<noteq> SDL_MOUSEBUTTONDOWN
      \<and> ev_type event \<noteq> SDL_MOUSEBUTTONUP \<and> ev_type event \<noteq> SDL_MOUSEWHEEL
    \<longrightarrow> sdl2_poll_event keyname st =
          (Inr (mp_tuple [mp_int (uint (ev_type event))]), st\<lparr>event_queue := es\<rparr>))
   \<and> (event_queue st = event # es \<and> ev_type event = SDL_QUIT
    \<longrightarrow> sdl2_poll_event keyname st =
          (Inr (mp_tuple [mp_int (uint SDL_QUIT)]), st\<lparr>event_queue := es\<rparr>))
   \<and> (fst (sdl2_poll_event keyname st) = Inr (mp_tuple items)
    \<longrightarrow> event_queue st \<noteq> [] \<and> items \<noteq> []
        \<and> items ! 0 = mp_int (uint (ev_type (hd (event_queue st)))))"
proof (intro conjI impI)
  assume a: "event_queue st = event # es \<and> ev_type event \<noteq> SDL_KEYDOWN \<and> ev_type event \<noteq> SDL_KEYUP
      \<and> ev_type event \<noteq> SDL_MOUSEMOTION \<and> ev_type event \<noteq> SDL_MOUSEBUTTONDOWN
      \<and> ev_type event \<noteq> SDL_MOUSEBUTTONUP \<and> ev_type event \<noteq> SDL_MOUSEWHEEL"
  then show "sdl2_poll_event keyname st =
          (Inr (mp_tuple [mp_int (uint (ev_type event))]), st\<lparr>event_queue := es\<rparr>)"
    by (simp add: poll_nonempty event_tuple_other)
next
  assume a: "event_queue st = event # es \<and> ev_type event = SDL_QUIT"
  then have "event_tuple keyname (obj st) event = Inr (mp_tuple [mp_int (uint SDL_QUIT)])"
    by (simp add: event_tuple_def mp_new_defs event_kinds)
  with a show "sdl2_poll_event keyname st =
          (Inr (mp_tuple [mp_int (uint SDL_QUIT)]), st\<lparr>event_queue := es\<rparr>)"
    by (simp add: poll_nonempty)
next
  assume r: "fst (sdl2_poll_event keyname st) = Inr (mp_tuple items)"
  show "event_queue st \<noteq> []"
  proof
    assume "event_queue st = []"
    then have "fst (sdl2_poll_event keyname st) = Inr mp_const_none"
      by (simp add: poll_empty)
    with r show False by simp
  qed
  then obtain e q where q: "event_queue st = e # q"
    by (cases "event_queue st") auto
  with r have "event_tuple keyname (obj st) e = Inr (mp_tuple items)"
    by (simp add: poll_nonempty)
  then have "items \<noteq> [] \<and> items ! 0 = mp_int (uint (ev_type e))"
    by (rule event_tuple_index0)
  with q show "items \<noteq> []" and "items ! 0 = mp_int (uint (ev_type (hd (event_queue st))))"
    by simp_all
qed

theorem poll_fallback_and_index0_witness:
  "sdl2_poll_event (\<lambda>k. []) (running (display 320 240 2 1) [quit_event, blank_event]) =
     (Inr (mp_tuple [mp_int 256]), running (display 320 240 2 1) [blank_event])
   \<and> [mp_int 256] ! 0 = mp_int (uint (ev_type quit_event))"
  using poll_fallback_and_index0
    [of "running (display 320 240 2 1) [quit_event, blank_event]" quit_event "[blank_event]"
        "\<lambda>k. []" "[mp_int 256]"]
  by (simp add: running_def quit_event_def blank_event_def event_kinds)

lemma poll_times_drains:
  assumes "0 <s x_scale (obj st)" "0 <s y_scale (obj st)" "n \<le> length (event_queue st)"
  shows "poll_times keyname n st =
           (map (event_tuple keyname (obj st)) (take n (event_queue st)),
            st\<lparr>event_queue := drop n (event_queue st)\<rparr>)"
  using assms
proof (induction n arbitrary: st)
  case 0
  then show ?case by simp
next
  case (Suc n)
  then obtain e es where q: "event_queue st = e # es"
    by (cases "event_queue st") auto
  let ?st1 = "st\<lparr>event_queue := es\<rparr>"
  have p: "sdl2_poll_event keyname st = (event_tuple keyname (obj st) e, ?st1)"
    using q by (rule poll_nonempty)
  have "poll_times keyname n ?st1 =
          (map (event_tuple keyname (obj ?st1)) (take n (event_queue ?st1)),
           ?st1\<lparr>event_queue := drop n (event_queue ?st1)\<rparr>)"
    using Suc.prems q by (intro Suc.IH) simp_all
  then show ?case
    using p q by simp
qed

text \<open>
  C6. With an empty queue a poll returns \<^verbatim>\<open>None\<close> and leaves the state as it is (the
  function has no loop and makes one \<^verbatim>\<open>SDL_PollEvent\<close> call). With positive scales and a
  queue \<open>event # es\<close> it returns the tuple of \<open>event\<close> and leaves the queue \<open>es\<close>; and as many
  polls as there are queued events return the tuples of the events in the order of the
  queue, one per call, and empty the queue, after which a poll returns \<^verbatim>\<open>None\<close>.
\<close>

theorem poll_one_event_per_call_in_order:
  "(event_queue st = [] \<longrightarrow> sdl2_poll_event keyname st = (Inr mp_const_none, st))
   \<and> (0 <s x_scale (obj st) \<and> 0 <s y_scale (obj st) \<and> event_queue st = event # es
      \<longrightarrow> (\<exists>items. sdl2_poll_event keyname st =
                     (Inr (mp_tuple items), st\<lparr>event_queue := es\<rparr>)
                   \<and> event_tuple keyname (obj st) event = Inr (mp_tuple items)))
   \<and> (0 <s x_scale (obj st) \<and> 0 <s y_scale (obj st)
      \<longrightarrow> poll_times keyname (length (event_queue st)) st =
            (map (event_tuple keyname (obj st)) (event_queue st), st\<lparr>event_queue := []\<rparr>)
          \<and> sdl2_poll_event keyname (snd (poll_times keyname (length (event_queue st)) st)) =
            (Inr mp_const_none, st\<lparr>event_queue := []\<rparr>))"
proof (intro conjI impI)
  assume "event_queue st = []"
  then show "sdl2_poll_event keyname st = (Inr mp_const_none, st)"
    by (rule poll_empty)
next
  assume a: "0 <s x_scale (obj st) \<and> 0 <s y_scale (obj st) \<and> event_queue st = event # es"
  then obtain items where "event_tuple keyname (obj st) event = Inr (mp_tuple items)"
    using event_tuple_positive [of "obj st" keyname event] by auto
  with a show "\<exists>items. sdl2_poll_event keyname st =
                     (Inr (mp_tuple items), st\<lparr>event_queue := es\<rparr>)
                   \<and> event_tuple keyname (obj st) event = Inr (mp_tuple items)"
    by (simp add: poll_nonempty)
next
  assume a: "0 <s x_scale (obj st) \<and> 0 <s y_scale (obj st)"
  then show d: "poll_times keyname (length (event_queue st)) st =
            (map (event_tuple keyname (obj st)) (event_queue st), st\<lparr>event_queue := []\<rparr>)"
    using poll_times_drains [of st "length (event_queue st)" keyname] by simp
  show "sdl2_poll_event keyname (snd (poll_times keyname (length (event_queue st)) st)) =
            (Inr mp_const_none, st\<lparr>event_queue := []\<rparr>)"
    unfolding d by (simp add: poll_empty)
qed

theorem poll_one_event_per_call_in_order_witness:
  "sdl2_poll_event (\<lambda>k. []) (running (display 320 240 2 1) []) =
     (Inr mp_const_none, running (display 320 240 2 1) [])
   \<and> poll_times (\<lambda>k. []) 2
       (running (display 320 240 2 1) [motion_event 10 10 4 4 1, quit_event]) =
     ([Inr (mp_tuple [mp_int 1024, mp_int 5, mp_int 10, mp_int 2, mp_int 4, mp_int 1]),
       Inr (mp_tuple [mp_int 256])],
      running (display 320 240 2 1) [])"
proof -
  let ?d = "display 320 240 2 1"
  let ?st = "running ?d [motion_event 10 10 4 4 1, quit_event]"
  have empty: "event_queue (running ?d []) = []"
    by (simp add: running_def)
  have none: "sdl2_poll_event (\<lambda>k. []) (running ?d []) = (Inr mp_const_none, running ?d [])"
    using poll_one_event_per_call_in_order [of "running ?d []" "\<lambda>k. []"] empty by blast
  have pos: "0 <s x_scale (obj ?st) \<and> 0 <s y_scale (obj ?st)"
    by (simp add: running_def display_def word_sless_alt)
  have "poll_times (\<lambda>k. []) (length (event_queue ?st)) ?st =
          (map (event_tuple (\<lambda>k. []) (obj ?st)) (event_queue ?st), ?st\<lparr>event_queue := []\<rparr>)"
    using poll_one_event_per_call_in_order [of ?st "\<lambda>k. []"] pos by blast
  moreover have "length (event_queue ?st) = 2"
    by (simp add: running_def)
  moreover have "event_tuple (\<lambda>k. []) (obj ?st) (motion_event 10 10 4 4 1) =
      Inr (mp_tuple [mp_int 1024, mp_int 5, mp_int 10, mp_int 2, mp_int 4, mp_int 1])"
    by (simp add: running_def display_def motion_event_def blank_event_def event_tuple_def
        event_kinds mp_new_defs c_div_def signed_divide_int_def)
  moreover have "event_tuple (\<lambda>k. []) (obj ?st) quit_event = Inr (mp_tuple [mp_int 256])"
    by (simp add: quit_event_def blank_event_def event_tuple_def event_kinds mp_new_defs)
  ultimately have "poll_times (\<lambda>k. []) 2 ?st =
     ([Inr (mp_tuple [mp_int 1024, mp_int 5, mp_int 10, mp_int 2, mp_int 4, mp_int 1]),
       Inr (mp_tuple [mp_int 256])], running ?d [])"
    by (simp add: running_def numeral_2_eq_2 del: poll_times.simps)
  with none show ?thesis by simp
qed

section \<open>deinit\<close>

text \<open>
  C8. \<^verbatim>\<open>sdl2_deinit\<close> returns \<^verbatim>\<open>None\<close> in every state and has no path that raises; after it
  the subsystem is released; a second call in a row returns \<^verbatim>\<open>None\<close> and leaves the state
  of the first; and called when the subsystem is already released it changes nothing.
\<close>

theorem deinit_idempotent:
  "fst (sdl2_deinit st) = Inr mp_const_none
   \<and> \<not> subsystem_up (snd (sdl2_deinit st))
   \<and> sdl2_deinit (snd (sdl2_deinit st)) = (Inr mp_const_none, snd (sdl2_deinit st))
   \<and> (\<not> subsystem_up st \<longrightarrow> sdl2_deinit st = (Inr mp_const_none, st))"
  by (simp add: sdl2_deinit_def SDL_Quit_def)

theorem deinit_idempotent_witness:
  "sdl2_deinit (running (display 320 240 1 1) []) =
     (Inr mp_const_none, (running (display 320 240 1 1) [])\<lparr>subsystem_up := False\<rparr>)
   \<and> sdl2_deinit ((running (display 320 240 1 1) [])\<lparr>subsystem_up := False\<rparr>) =
     (Inr mp_const_none, (running (display 320 240 1 1) [])\<lparr>subsystem_up := False\<rparr>)"
  using deinit_idempotent [of "running (display 320 240 1 1) []"]
    deinit_idempotent [of "(running (display 320 240 1 1) [])\<lparr>subsystem_up := False\<rparr>"]
  by (simp add: sdl2_deinit_def SDL_Quit_def running_def)

section \<open>The driver object\<close>

lemma obj_issue: "obj (snd (issue be r st)) = obj st"
  by (simp add: issue_def)

lemma obj_show_pixel: "obj (snd (show_pixel be bytes xx yy i st)) = obj st"
  unfolding show_pixel_def issue_def
  by (simp add: Let_def split: option.split)

lemma obj_show_row: "obj (snd (show_row be bytes yy xx i st)) = obj st"
proof (induction be bytes yy xx i st rule: show_row.induct)
  case (1 be bytes yy xx i st)
  show ?case
  proof (cases "xx <s width (obj st)")
    case False
    then show ?thesis by (subst show_row.simps) simp
  next
    case True
    show ?thesis
    proof (cases "fst (show_pixel be bytes xx yy i st)")
      case (Inl e)
      with True show ?thesis
        by (subst show_row.simps) (simp add: Let_def obj_show_pixel)
    next
      case (Inr u)
      with True "1.IH" [OF True refl Inr] show ?thesis
        by (subst show_row.simps) (simp add: Let_def obj_show_pixel)
    qed
  qed
qed

lemma obj_show_rows: "obj (snd (show_rows be bytes yy i st)) = obj st"
proof (induction be bytes yy i st rule: show_rows.induct)
  case (1 be bytes yy i st)
  show ?case
  proof (cases "yy <s height (obj st)")
    case False
    then show ?thesis by (subst show_rows.simps) simp
  next
    case True
    show ?thesis
    proof (cases "fst (show_row be bytes yy 0 i st)")
      case (Inl e)
      with True show ?thesis
        by (subst show_rows.simps) (simp add: Let_def obj_show_row)
    next
      case (Inr j)
      with True "1.IH" [OF True refl Inr] show ?thesis
        by (subst show_rows.simps) (simp add: Let_def obj_show_row)
    qed
  qed
qed

lemma obj_show: "obj (snd (sdl2_show be rest st)) = obj st"
  unfolding sdl2_show_def
  by (simp add: Let_def obj_show_rows obj_issue split: list.split option.split sum.split)

lemma obj_poll: "obj (snd (sdl2_poll_event keyname st)) = obj st"
  by (simp add: sdl2_poll_event_def SDL_PollEvent_def split: list.split)

lemma obj_deinit: "obj (snd (sdl2_deinit st)) = obj st"
  by (simp add: sdl2_deinit_def SDL_Quit_def)

text \<open>
  C9. The driver object after \<^verbatim>\<open>show\<close>, \<^verbatim>\<open>poll_event\<close> or \<^verbatim>\<open>deinit\<close> is the driver object
  before it, whatever the call returns: width, height, x, y, x_scale, y_scale, title,
  window_flags and render_flags (and the two handles) are unchanged.
\<close>

theorem configuration_unchanged:
  "obj (snd (sdl2_show be rest st)) = obj st
   \<and> obj (snd (sdl2_poll_event keyname st)) = obj st
   \<and> obj (snd (sdl2_deinit st)) = obj st"
  by (simp add: obj_show obj_poll obj_deinit)

theorem configuration_unchanged_witness:
  "obj (snd (sdl2_show (\<lambda>rs r. 0) [mp_buffer (Some [0, 0xF8])] (running (display 1 1 3 2) [])))
     = display 1 1 3 2
   \<and> obj (snd (sdl2_poll_event (\<lambda>k. []) (running (display 1 1 3 2) [quit_event])))
     = display 1 1 3 2
   \<and> obj (snd (sdl2_deinit (running (display 1 1 3 2) []))) = display 1 1 3 2"
  using configuration_unchanged [of "\<lambda>rs r. 0" "[mp_buffer (Some [0, 0xF8])]"
      "running (display 1 1 3 2) []" "\<lambda>k. []"]
    configuration_unchanged [of "\<lambda>rs r. 0" "[]" "running (display 1 1 3 2) [quit_event]" "\<lambda>k. []"]
  by (simp add: running_def)

section \<open>Construction\<close>

lemma make_new_requests:
  assumes init: "be (requests st) SDL_Init = 0"
  shows "\<exists>rest. requests (snd (sdl2_make_new be args st)) =
           requests st @ SDL_Init
             # SDL_CreateWindow (ARG_title args) (ucast (ARG_x args)) (ucast (ARG_y args))
                 (ucast (ARG_width args) * ucast (ARG_x_scale args))
                 (ucast (ARG_height args) * ucast (ARG_y_scale args))
                 (ucast (ARG_window_flags args))
             # rest"
  using init by (simp add: sdl2_make_new_def issue_def Let_def)

lemma make_new_fields:
  "width (obj (snd (sdl2_make_new be args st))) = ucast (ARG_width args)
   \<and> height (obj (snd (sdl2_make_new be args st))) = ucast (ARG_height args)
   \<and> x_scale (obj (snd (sdl2_make_new be args st))) = ucast (ARG_x_scale args)
   \<and> y_scale (obj (snd (sdl2_make_new be args st))) = ucast (ARG_y_scale args)
   \<and> title (obj (snd (sdl2_make_new be args st))) = ARG_title args
   \<and> pos_x (obj (snd (sdl2_make_new be args st))) = ucast (ARG_x args)
   \<and> pos_y (obj (snd (sdl2_make_new be args st))) = ucast (ARG_y args)
   \<and> window_flags (obj (snd (sdl2_make_new be args st))) = ucast (ARG_window_flags args)"
  by (simp add: sdl2_make_new_def issue_def Let_def)

text \<open>
  C10. When \<^verbatim>\<open>SDL_Init\<close> succeeds, the constructor's next request is
  \<^verbatim>\<open>SDL_CreateWindow\<close> with the title, the position and the flags of the new object and
  with the size width * x_scale by height * y_scale, the products of the object's
  fields as the C code multiplies them; where a product fits a C \<^verbatim>\<open>int\<close>, the size
  requested is that product as an integer.
\<close>

theorem make_new_window_is_scaled:
  assumes "be (requests st) SDL_Init = 0"
  shows "\<exists>rest.
           (let self = obj (snd (sdl2_make_new be args st))
            in width self = ucast (ARG_width args) \<and> height self = ucast (ARG_height args)
             \<and> x_scale self = ucast (ARG_x_scale args) \<and> y_scale self = ucast (ARG_y_scale args)
             \<and> requests (snd (sdl2_make_new be args st)) =
                 requests st @ SDL_Init
                   # SDL_CreateWindow (title self) (pos_x self) (pos_y self)
                       (width self * x_scale self) (height self * y_scale self)
                       (window_flags self)
                   # rest
             \<and> (- (2 ^ 31) \<le> sint (width self) * sint (x_scale self)
                   \<and> sint (width self) * sint (x_scale self) < 2 ^ 31
                 \<longrightarrow> sint (width self * x_scale self) = sint (width self) * sint (x_scale self))
             \<and> (- (2 ^ 31) \<le> sint (height self) * sint (y_scale self)
                   \<and> sint (height self) * sint (y_scale self) < 2 ^ 31
                 \<longrightarrow> sint (height self * y_scale self) = sint (height self) * sint (y_scale self)))"
proof -
  obtain rest where r: "requests (snd (sdl2_make_new be args st)) =
           requests st @ SDL_Init
             # SDL_CreateWindow (ARG_title args) (ucast (ARG_x args)) (ucast (ARG_y args))
                 (ucast (ARG_width args) * ucast (ARG_x_scale args))
                 (ucast (ARG_height args) * ucast (ARG_y_scale args))
                 (ucast (ARG_window_flags args))
             # rest"
    using make_new_requests [where be = be and st = st and args = args] assms by blast
  show ?thesis
  proof (rule exI [where x = rest])
    show "let self = obj (snd (sdl2_make_new be args st))
            in width self = ucast (ARG_width args) \<and> height self = ucast (ARG_height args)
             \<and> x_scale self = ucast (ARG_x_scale args) \<and> y_scale self = ucast (ARG_y_scale args)
             \<and> requests (snd (sdl2_make_new be args st)) =
                 requests st @ SDL_Init
                   # SDL_CreateWindow (title self) (pos_x self) (pos_y self)
                       (width self * x_scale self) (height self * y_scale self)
                       (window_flags self)
                   # rest
             \<and> (- (2 ^ 31) \<le> sint (width self) * sint (x_scale self)
                   \<and> sint (width self) * sint (x_scale self) < 2 ^ 31
                 \<longrightarrow> sint (width self * x_scale self) = sint (width self) * sint (x_scale self))
             \<and> (- (2 ^ 31) \<le> sint (height self) * sint (y_scale self)
                   \<and> sint (height self) * sint (y_scale self) < 2 ^ 31
                 \<longrightarrow> sint (height self * y_scale self) = sint (height self) * sint (y_scale self))"
      unfolding Let_def
      using r by (simp add: make_new_fields sint_times_in_range)
  qed
qed

theorem make_new_window_is_scaled_witness:
  "requests (snd (sdl2_make_new (\<lambda>rs r. if r = SDL_Init then 0 else 5)
       \<lparr> ARG_width = 320, ARG_height = 240, ARG_x = 0, ARG_y = 0,
         ARG_x_scale = 2, ARG_y_scale = 3, ARG_title = ''MicroPython'',
         ARG_window_flags = 4, ARG_render_flags = 6 \<rparr>
       \<lparr> obj = display 0 0 0 0, requests = [], event_queue = [], subsystem_up = False \<rparr>)) =
     [SDL_Init, SDL_CreateWindow ''MicroPython'' 0 0 640 720 4, SDL_CreateRenderer 5 (- 1) 6]"
proof -
  let ?be = "\<lambda>rs r. if r = SDL_Init then 0 else (5 :: int)"
  let ?st = "\<lparr> obj = display 0 0 0 0, requests = [], event_queue = [], subsystem_up = False \<rparr>"
  let ?args = "\<lparr> ARG_width = 320, ARG_height = 240, ARG_x = 0, ARG_y = 0,
         ARG_x_scale = 2, ARG_y_scale = 3, ARG_title = ''MicroPython'',
         ARG_window_flags = 4, ARG_render_flags = 6 \<rparr>"
  have init: "?be (requests ?st) SDL_Init = 0" by simp
  obtain rest where r: "requests (snd (sdl2_make_new ?be ?args ?st)) =
      requests ?st @ SDL_Init
        # SDL_CreateWindow (title (obj (snd (sdl2_make_new ?be ?args ?st))))
            (pos_x (obj (snd (sdl2_make_new ?be ?args ?st))))
            (pos_y (obj (snd (sdl2_make_new ?be ?args ?st))))
            (width (obj (snd (sdl2_make_new ?be ?args ?st)))
              * x_scale (obj (snd (sdl2_make_new ?be ?args ?st))))
            (height (obj (snd (sdl2_make_new ?be ?args ?st)))
              * y_scale (obj (snd (sdl2_make_new ?be ?args ?st))))
            (window_flags (obj (snd (sdl2_make_new ?be ?args ?st))))
        # rest"
    using make_new_window_is_scaled [where be = "?be" and st = "?st" and args = "?args"] init
    unfolding Let_def by blast
  have "requests (snd (sdl2_make_new ?be ?args ?st)) =
     [SDL_Init, SDL_CreateWindow ''MicroPython'' 0 0 640 720 4, SDL_CreateRenderer 5 (- 1) 6]"
    by (simp add: sdl2_make_new_def issue_def Let_def)
  with r show ?thesis by simp
qed

end
